theory Spec2Isabelle
  imports Complex_Main
begin

section \<open>Strings of the runtime\<close>

text \<open>
  A JavaScript string is a sequence of UTF-16 code units. A code unit is modelled by its
  numeric value; nothing below depends on the bound \<open>< 65536\<close>. String literals of the
  source that are plain ASCII are written with \<open>js\<close>.
\<close>

type_synonym jsstring = "nat list"

definition js :: "string \<Rightarrow> jsstring" where
  "js s = map of_char s"

section \<open>Numbers of the runtime\<close>

text \<open>
  A Number is an IEEE 754 binary64 value. A finite one is kept as an odd mantissa and a
  binary exponent, \<open>Fin m e\<close> for \<open>m * 2 ^ e\<close> (zero is \<open>Fin 0 0\<close>; the sign of
  zero is not kept, it does not survive JSON). Every arithmetic result is rounded to the
  nearest representable value, ties to the even mantissa.
\<close>

datatype jsnum = NaN | Inf bool | Fin int int

function bit_length :: "int \<Rightarrow> int" where
  "bit_length n = (if n \<le> 0 then 0 else 1 + bit_length (n div 2))"
  by pat_completeness auto
termination
  by (relation "measure nat") auto

declare bit_length.simps [simp del]

function normalise :: "int \<Rightarrow> int \<Rightarrow> jsnum" where
  "normalise m e =
     (if m = 0 then Fin 0 0
      else if even m then normalise (m div 2) (e + 1)
      else Fin m e)"
  by pat_completeness auto
termination
  by (relation "measure (\<lambda>(m, e). nat \<bar>m\<bar>)") auto

declare normalise.simps [simp del]

definition pack :: "bool \<Rightarrow> int \<Rightarrow> int \<Rightarrow> jsnum" where
  \<comment> \<open>sign, magnitude in quanta, exponent of the quantum; overflow gives infinity\<close>
  "pack pos n qe =
     (if n = 0 then Fin 0 0
      else if 1024 < bit_length n + qe then Inf pos
      else normalise (if pos then n else - n) qe)"

definition nearest :: "int \<Rightarrow> int \<Rightarrow> int" where
  \<comment> \<open>the integer nearest to \<open>N / D\<close> for \<open>0 \<le> N\<close> and \<open>0 < D\<close>, ties to even\<close>
  "nearest N D =
     (let q = N div D; r = N mod D
      in if 2 * r < D then q else if D < 2 * r then q + 1 else if even q then q else q + 1)"

definition binary64 :: "int \<Rightarrow> int \<Rightarrow> jsnum" where
  \<comment> \<open>the Number nearest to the exact value \<open>m * 2 ^ e\<close>\<close>
  "binary64 m e =
     (let a = \<bar>m\<bar>; qe = max (bit_length a + e - 53) (- 1074)
      in if qe \<le> e then pack (0 \<le> m) a e
         else pack (0 \<le> m) (nearest a (2 ^ nat (qe - e))) qe)"

definition decimal :: "int \<Rightarrow> int \<Rightarrow> jsnum" where
  \<comment> \<open>the Number nearest to the fraction \<open>p / q\<close> (\<open>0 < q\<close>), as a numeric literal
      or a JSON number denotes it\<close>
  "decimal p q =
     (let a = \<bar>p\<bar>;
          e0 = bit_length a - bit_length q;
          e1 = (if (if 0 \<le> e0 then q * 2 ^ nat e0 \<le> a else q \<le> a * 2 ^ nat (- e0))
                then e0 else e0 - 1);
          qe = max (e1 - 52) (- 1074)
      in if qe \<le> 0 then pack (0 \<le> p) (nearest (a * 2 ^ nat (- qe)) q) qe
         else pack (0 \<le> p) (nearest a (q * 2 ^ nat qe)) qe)"

definition integral :: "int \<Rightarrow> jsnum" where
  \<comment> \<open>an integer below \<open>2 ^ 53\<close> in magnitude, which is a Number exactly\<close>
  "integral k = normalise k 0"

fun js_times :: "jsnum \<Rightarrow> jsnum \<Rightarrow> jsnum" where
  "js_times (Fin m e) (Fin n f) = binary64 (m * n) (e + f)"
| "js_times NaN y = NaN"
| "js_times x NaN = NaN"
| "js_times (Inf s) (Inf t) = Inf (s = t)"
| "js_times (Inf s) (Fin n f) = (if n = 0 then NaN else Inf (s = (0 < n)))"
| "js_times (Fin m e) (Inf t) = (if m = 0 then NaN else Inf ((0 < m) = t))"

fun Math_round :: "jsnum \<Rightarrow> jsnum" where
  \<comment> \<open>the integral Number closest to the argument, the one towards plus infinity on a tie\<close>
  "Math_round (Fin m e) =
     integral (if 0 \<le> e then m * 2 ^ nat e
               else (m + 2 ^ nat (- e - 1)) div 2 ^ nat (- e))"
| "Math_round NaN = NaN"
| "Math_round (Inf s) = Inf s"

definition value_of :: "int \<Rightarrow> int \<Rightarrow> rat" where
  "value_of m e = of_int m * 2 powi e"

section \<open>Values, errors and what the engine supplies\<close>

datatype jsval =
    Undefined
  | Null
  | Bool bool
  | Num jsnum
  | Str jsstring
  | Arr "jsval list"
  | Obj "(jsstring \<times> jsval) list"

text \<open>A thrown Error object: its \<open>message\<close> is a string or absent.\<close>

datatype js_error = Error "jsstring option"

text \<open>
  What the engine supplies and the repository does not: the Unicode upper-casing of a
  code unit outside ASCII (one to three code units, as \<open>toUpperCase\<close> gives on a
  one-unit string), \<open>JSON.parse\<close> (on whatever value it is handed), the conversion to
  Number of a string, array or object, and the TypeError raised by reading a property of
  \<open>undefined\<close> or \<open>null\<close>, whose message the language leaves open.
\<close>

record runtime =
  unicode_upper :: "nat \<Rightarrow> jsstring"
  JSON_parse :: "jsval \<Rightarrow> js_error + jsval"
  to_number_other :: "jsval \<Rightarrow> jsnum"
  type_error :: "jsval \<Rightarrow> jsstring \<Rightarrow> js_error"

definition toUpperCase_unit :: "'r runtime_scheme \<Rightarrow> nat \<Rightarrow> jsstring" where
  "toUpperCase_unit rt c =
     (if 97 \<le> c \<and> c \<le> 122 then [c - 32]
      else if c < 128 then [c]
      else unicode_upper rt c)"

definition toUpperCase :: "'r runtime_scheme \<Rightarrow> jsstring \<Rightarrow> jsstring" where
  \<comment> \<open>only ever applied to the result of \<open>charAt\<close>: the empty string or one code unit\<close>
  "toUpperCase rt s = concat (map (toUpperCase_unit rt) s)"

definition charAt :: "jsstring \<Rightarrow> nat \<Rightarrow> jsstring" where
  "charAt s i = (if i < length s then [s ! i] else [])"

definition slice :: "jsstring \<Rightarrow> nat \<Rightarrow> jsstring" where
  "slice s i = drop i s"

definition substring :: "jsstring \<Rightarrow> nat \<Rightarrow> nat \<Rightarrow> jsstring" where
  \<comment> \<open>for \<open>i \<le> j\<close>; the one call of the source is \<open>substring(0, 100)\<close>\<close>
  "substring s i j = take (j - i) (drop i s)"

definition is_space :: "nat \<Rightarrow> bool" where
  \<comment> \<open>the class \<open>\<bslash>s\<close>, which is also what \<open>trim\<close> strips: WhiteSpace and LineTerminator\<close>
  "is_space c \<longleftrightarrow>
     (9 \<le> c \<and> c \<le> 13) \<or> c = 32 \<or> c = 160 \<or> c = 5760 \<or> (8192 \<le> c \<and> c \<le> 8202) \<or>
     c = 8232 \<or> c = 8233 \<or> c = 8239 \<or> c = 8287 \<or> c = 12288 \<or> c = 65279"

definition trim :: "jsstring \<Rightarrow> jsstring" where
  "trim s = rev (dropWhile is_space (rev (dropWhile is_space s)))"

section \<open>Regular expressions of the form \<open>/\<bslash>b(a1|...|an)\<bslash>b/gi\<close>\<close>

definition is_word_char :: "nat \<Rightarrow> bool" where
  \<comment> \<open>\<open>\<bslash>w\<close>: digits, upper-case letters, underscore, lower-case letters\<close>
  "is_word_char c \<longleftrightarrow>
     (48 \<le> c \<and> c \<le> 57) \<or> (65 \<le> c \<and> c \<le> 90) \<or> c = 95 \<or> (97 \<le> c \<and> c \<le> 122)"

definition canonicalize :: "nat \<Rightarrow> nat" where
  \<comment> \<open>Case folding of the \<open>i\<close> flag without the \<open>u\<close> flag. A code unit from 128 on never
      folds to an ASCII one, so against the ASCII patterns of this program it only ever
      equals itself.\<close>
  "canonicalize c = (if 97 \<le> c \<and> c \<le> 122 then c - 32 else c)"

fun word_at :: "jsstring \<Rightarrow> bool" where
  "word_at [] = False"
| "word_at (c # cs) = is_word_char c"

definition boundary :: "bool \<Rightarrow> jsstring \<Rightarrow> bool" where
  \<comment> \<open>\<open>\<bslash>b\<close>: \<open>pw\<close> tells whether the unit before the position is a word character\<close>
  "boundary pw s \<longleftrightarrow> pw \<noteq> word_at s"

fun eat :: "jsstring \<Rightarrow> bool \<Rightarrow> jsstring \<Rightarrow> (bool \<times> jsstring) option" where
  "eat [] pw s = Some (pw, s)"
| "eat (p # ps) pw [] = None"
| "eat (p # ps) pw (c # cs) =
     (if canonicalize p = canonicalize c then eat ps (is_word_char c) cs else None)"

definition match_alt :: "bool \<Rightarrow> jsstring \<Rightarrow> jsstring \<Rightarrow> bool" where
  "match_alt pw s a \<longleftrightarrow>
     boundary pw s \<and>
     (case eat a pw s of None \<Rightarrow> False | Some (pw', rest) \<Rightarrow> boundary pw' rest)"

fun regex_exec :: "jsstring list \<Rightarrow> bool \<Rightarrow> jsstring \<Rightarrow> nat option" where
  \<comment> \<open>a match at this position: the first alternative that matches with both boundaries
      (the engine backtracks into the alternation); the result is the matched length\<close>
  "regex_exec [] pw s = None"
| "regex_exec (a # alts) pw s =
     (if match_alt pw s a then Some (length a) else regex_exec alts pw s)"

datatype piece = Kept nat | Matched jsstring

fun scan :: "jsstring list \<Rightarrow> bool \<Rightarrow> jsstring \<Rightarrow> piece list" where
  \<comment> \<open>the search of a global replace: after a match it goes on behind the match, after an
      empty match and where nothing matches it goes on one unit further\<close>
  "scan alts pw [] = (case regex_exec alts pw [] of None \<Rightarrow> [] | Some n \<Rightarrow> [Matched []])"
| "scan alts pw (c # cs) =
     (case regex_exec alts pw (c # cs) of
        None \<Rightarrow> Kept c # scan alts (is_word_char c) cs
      | Some 0 \<Rightarrow> Matched [] # Kept c # scan alts (is_word_char c) cs
      | Some (Suc n) \<Rightarrow>
          Matched (c # take n cs) #
          scan alts (is_word_char (last (c # take n cs))) (drop n cs))"

fun render :: "jsstring \<Rightarrow> piece \<Rightarrow> jsstring" where
  "render r (Kept c) = [c]"
| "render r (Matched m) = r"

definition replace_regex :: "jsstring list \<Rightarrow> jsstring \<Rightarrow> jsstring \<Rightarrow> jsstring" where
  \<comment> \<open>\<open>s.replace(/\<bslash>b(a1|...|an)\<bslash>b/gi, r)\<close>: every match, found from left to right, gives
      way to \<open>r\<close>, taken literally (no replacement of the source holds a \<open>$\<close>)\<close>
  "replace_regex alts r s = concat (map (render r) (scan alts False s))"

function collapse_spaces :: "jsstring \<Rightarrow> jsstring" where
  "collapse_spaces [] = []"
| "collapse_spaces (c # cs) =
     (if is_space c then 32 # collapse_spaces (dropWhile is_space cs)
      else c # collapse_spaces cs)"
  by pat_completeness auto
termination
  by (relation "measure length") (auto simp: less_Suc_eq_le length_dropWhile_le)

definition is_terminator :: "nat \<Rightarrow> bool" where
  "is_terminator c \<longleftrightarrow> c = 46 \<or> c = 33 \<or> c = 63"

definition match_first_sentence :: "jsstring \<Rightarrow> jsstring option" where
  "match_first_sentence s =
     (let body = takeWhile (\<lambda>c. \<not> is_terminator c) s;
          rest = dropWhile (\<lambda>c. \<not> is_terminator c) s
      in if body \<noteq> [] \<and> rest \<noteq> [] then Some (body @ [hd rest]) else None)"

section \<open>The rewrite engine\<close>

record rule =
  pattern :: "jsstring list"
  replacement :: jsstring

definition aggressivePatterns :: "rule list" where
  "aggressivePatterns =
    [\<lparr>pattern = [js ''stupid'', js ''dumb'', js ''idiotic'', js ''moronic''],
      replacement = js ''unclear''\<rparr>,
     \<lparr>pattern = [js ''hate'', js ''despise'', js ''loathe''],
      replacement = js ''don'' @ [39] @ js ''t prefer''\<rparr>,
     \<lparr>pattern = [js ''terrible'', js ''awful'', js ''horrible'', js ''atrocious''],
      replacement = js ''not ideal''\<rparr>,
     \<lparr>pattern = [js ''never'', js ''always''],
      replacement = js ''sometimes''\<rparr>,
     \<lparr>pattern = [js ''useless'', js ''worthless''],
      replacement = js ''not quite working''\<rparr>,
     \<lparr>pattern = [js ''waste of time''],
      replacement = js ''could be optimized''\<rparr>,
     \<lparr>pattern = [js ''wrong'', js ''incorrect''],
      replacement = js ''might need adjustment''\<rparr>,
     \<lparr>pattern = [js ''obviously'', js ''clearly''],
      replacement = js ''it seems''\<rparr>,
     \<lparr>pattern = [js ''fail'', js ''failed'', js ''failure''],
      replacement = js ''didn'' @ [39] @ js ''t work out''\<rparr>,
     \<lparr>pattern = [js ''ridiculous'', js ''absurd''],
      replacement = js ''surprising''\<rparr>]"

definition apply_rules :: "rule list \<Rightarrow> jsstring \<Rightarrow> jsstring" where
  "apply_rules rules text = fold (\<lambda>r result. replace_regex (pattern r) (replacement r) result) rules text"

definition soften :: "jsstring \<Rightarrow> jsstring" where
  "soften text = apply_rules aggressivePatterns text"

definition wrapProfessional :: "'r runtime_scheme \<Rightarrow> jsstring \<Rightarrow> jsstring" where
  "wrapProfessional rt text0 =
     (let intro = js ''I wanted to share some feedback regarding this matter. '';
          outro = js '' I believe addressing this could lead to better outcomes. Please let me know your thoughts.'';
          text = trim (collapse_spaces text0)
      in intro @ toUpperCase rt (charAt text 0) @ slice text 1 @ outro)"

definition wrapCalm :: "'r runtime_scheme \<Rightarrow> jsstring \<Rightarrow> jsstring" where
  "wrapCalm rt text0 =
     (let intro = js ''I understand there may be different perspectives here. '';
          outro = js '' I'' @ [39] @ js ''d appreciate the opportunity to discuss this further when you have time.'';
          text = trim (collapse_spaces text0)
      in intro @ toUpperCase rt (charAt text 0) @ slice text 1 @ outro)"

definition wrapFriendly :: "'r runtime_scheme \<Rightarrow> jsstring \<Rightarrow> jsstring" where
  \<comment> \<open>the outro of the source file ends in the four code units U+F8FF, U+00FC, U+00F2,
      U+00E4 (the bytes of the emoji U+1F60A as Mac Roman text)\<close>
  "wrapFriendly rt text0 =
     (let intro = js ''Hey! I wanted to chat about something. '';
          outro = js '' Would love to hear your take on this! '' @ [63743, 252, 242, 228];
          text = trim (collapse_spaces text0)
      in intro @ toUpperCase rt (charAt text 0) @ slice text 1 @ outro)"

definition firstSentence :: "jsstring \<Rightarrow> jsstring" where
  \<comment> \<open>\<open>text.match(/^[^.!?]+[.!?]/)?.[0] || text.substring(0, 100)\<close>\<close>
  "firstSentence text =
     (case match_first_sentence text of
        Some m \<Rightarrow> if m \<noteq> [] then m else substring text 0 100
      | None \<Rightarrow> substring text 0 100)"

definition wrapShort :: "jsstring \<Rightarrow> jsstring" where
  "wrapShort text0 =
     (let text = trim (collapse_spaces text0)
      in js ''Quick note: '' @ trim (firstSentence text) @ js '' Let'' @ [39] @ js ''s discuss.'')"

definition applyRewriteRules :: "'r runtime_scheme \<Rightarrow> jsstring \<Rightarrow> jsstring \<Rightarrow> jsstring" where
  "applyRewriteRules rt text tone =
     (let result = soften text
      in if tone = js ''professional'' then wrapProfessional rt result
         else if tone = js ''calm'' then wrapCalm rt result
         else if tone = js ''friendly'' then wrapFriendly rt result
         else if tone = js ''short'' then wrapShort result
         else result)"

section \<open>The HTTP handlers\<close>

record response =
  status :: nat
  body :: jsval

definition json_error :: "nat \<Rightarrow> jsstring \<Rightarrow> response" where
  \<comment> \<open>\<open>res.status(code).json({ error: msg })\<close>\<close>
  "json_error code msg = \<lparr>status = code, body = Obj [(js ''error'', Str msg)]\<rparr>"

fun truthy :: "jsval \<Rightarrow> bool" where
  "truthy Undefined = False"
| "truthy Null = False"
| "truthy (Bool b) = b"
| "truthy (Num NaN) = False"
| "truthy (Num (Inf s)) = True"
| "truthy (Num (Fin m e)) = (m \<noteq> 0)"
| "truthy (Str s) = (s \<noteq> [])"
| "truthy (Arr xs) = True"
| "truthy (Obj ps) = True"

fun is_string :: "jsval \<Rightarrow> bool" where
  "is_string (Str s) = True"
| "is_string v = False"

fun string_of :: "jsval \<Rightarrow> jsstring" where
  "string_of (Str s) = s"
| "string_of v = []"

fun nullish :: "jsval \<Rightarrow> bool" where
  "nullish Undefined = True"
| "nullish Null = True"
| "nullish v = False"

fun get_prop :: "jsval \<Rightarrow> jsstring \<Rightarrow> jsval" where
  \<comment> \<open>reading a property of a value that is neither \<open>undefined\<close> nor \<open>null\<close>; none of
      the names read below is a property of a string, an array, a number or a boolean\<close>
  "get_prop (Obj ps) k = (case map_of ps k of Some v \<Rightarrow> v | None \<Rightarrow> Undefined)"
| "get_prop v k = Undefined"

fun second :: "jsval \<Rightarrow> jsval" where
  \<comment> \<open>\<open>x?.[1]\<close>\<close>
  "second (Arr xs) = (if 1 < length xs then xs ! 1 else Undefined)"
| "second (Str s) = (if 1 < length s then Str [s ! 1] else Undefined)"
| "second (Obj ps) = get_prop (Obj ps) (js ''1'')"
| "second v = Undefined"

fun to_number :: "'r runtime_scheme \<Rightarrow> jsval \<Rightarrow> jsnum" where
  "to_number rt Undefined = NaN"
| "to_number rt Null = Fin 0 0"
| "to_number rt (Bool b) = (if b then integral 1 else Fin 0 0)"
| "to_number rt (Num n) = n"
| "to_number rt v = to_number_other rt v"

fun String_includes :: "jsstring \<Rightarrow> jsstring \<Rightarrow> bool" where
  "String_includes [] sub = (sub = [])"
| "String_includes (c # cs) sub = (take (length sub) (c # cs) = sub \<or> String_includes cs sub)"

text \<open>
  The moderation service is outside the repository: \<open>connect\<close> is \<open>Client.connect\<close> with
  the token (it throws or yields a client), \<open>predict\<close> is the call of
  \<open>/fetch_toxicity_level\<close> with the message and the bias (it throws or yields a result).
\<close>

record upstream =
  connect :: "jsstring \<Rightarrow> js_error option"
  predict :: "jsstring \<Rightarrow> jsval \<Rightarrow> js_error + jsval"

definition moderate_try ::
    "'r runtime_scheme \<Rightarrow> upstream \<Rightarrow> jsstring option \<Rightarrow> jsval \<Rightarrow> js_error + response" where
  \<comment> \<open>the body of the \<open>try\<close> block; \<open>Inl\<close> is a thrown error\<close>
  "moderate_try rt up HF_TOKEN req_body =
     (if nullish req_body then Inl (type_error rt req_body (js ''text''))
      else
        let text = get_prop req_body (js ''text'');
            safer = (if get_prop req_body (js ''safer'') = Undefined then Num (decimal 1 10)
                     else get_prop req_body (js ''safer''))
        in if \<not> truthy text \<or> \<not> is_string text then
             Inr (json_error 400 (js ''Invalid input: text field is required and must be a string''))
           else if length (trim (string_of text)) = 0 then
             Inr (json_error 400 (js ''Invalid input: text cannot be empty''))
           else if 5000 < length (string_of text) then
             Inr (json_error 400 (js ''Invalid input: text is too long (max 5000 characters)''))
           else
             (case HF_TOKEN of
                None \<Rightarrow> Inr (json_error 500 (js ''Server configuration error: HF_TOKEN not set''))
              | Some token \<Rightarrow>
                  if token = [] then
                    Inr (json_error 500 (js ''Server configuration error: HF_TOKEN not set''))
                  else
                    (case connect up token of
                       Some e \<Rightarrow> Inl e
                     | None \<Rightarrow>
                         (case predict up (string_of text) safer of
                            Inl e \<Rightarrow> Inl e
                          | Inr result \<Rightarrow>
                              if nullish result then Inl (type_error rt result (js ''data''))
                              else
                                let data = get_prop result (js ''data'');
                                    toxicityDataStr = second data
                                in if \<not> truthy toxicityDataStr then
                                     Inl (Error (Some (js ''Unexpected API response format'')))
                                   else
                                     (case JSON_parse rt toxicityDataStr of
                                        Inl e \<Rightarrow> Inl e
                                      | Inr toxicityData \<Rightarrow>
                                          if nullish toxicityData then
                                            Inl (type_error rt toxicityData (js ''max_value''))
                                          else
                                            let toxicityScore = get_prop toxicityData (js ''max_value'');
                                                scorePct = Math_round
                                                  (js_times (to_number rt toxicityScore) (integral 100))
                                            in Inr \<lparr>status = 200,
                                                    body = Obj [(js ''scorePct'', Num scorePct),
                                                                (js ''score01'', toxicityScore),
                                                                (js ''raw'', data)]\<rparr>)))))"

definition moderate_catch :: "js_error \<Rightarrow> response" where
  "moderate_catch error =
     (case error of
        Error None \<Rightarrow> json_error 500 (js ''Failed to analyze message. Please try again.'')
      | Error (Some message) \<Rightarrow>
          if String_includes message (js ''connect'') then
            json_error 503 (js ''Unable to connect to moderation service. Please try again.'')
          else json_error 500 (js ''Failed to analyze message. Please try again.''))"

definition moderate ::
    "'r runtime_scheme \<Rightarrow> upstream \<Rightarrow> jsstring option \<Rightarrow> jsval \<Rightarrow> response" where
  "moderate rt up HF_TOKEN req_body =
     (case moderate_try rt up HF_TOKEN req_body of
        Inr res \<Rightarrow> res
      | Inl error \<Rightarrow> moderate_catch error)"

definition tones :: "jsstring list" where
  "tones = [js ''professional'', js ''calm'', js ''friendly'', js ''short'']"

definition rewrite_try :: "'r runtime_scheme \<Rightarrow> jsval \<Rightarrow> js_error + response" where
  "rewrite_try rt req_body =
     (if nullish req_body then Inl (type_error rt req_body (js ''text''))
      else
        let text = get_prop req_body (js ''text'');
            tone = get_prop req_body (js ''tone'')
        in if \<not> truthy text \<or> \<not> is_string text then
             Inr (json_error 400 (js ''Invalid input: text field is required and must be a string''))
           else if \<not> truthy tone \<or> tone \<notin> Str ` set tones then
             Inr (json_error 400
               (js ''Invalid input: tone must be one of: professional, calm, friendly, short''))
           else
             let rewritten = applyRewriteRules rt (string_of text) (string_of tone)
             in Inr \<lparr>status = 200,
                     body = Obj [(js ''rewritten'', Str rewritten), (js ''tone'', tone)]\<rparr>)"

definition rewrite :: "'r runtime_scheme \<Rightarrow> jsval \<Rightarrow> response" where
  "rewrite rt req_body =
     (case rewrite_try rt req_body of
        Inr res \<Rightarrow> res
      | Inl error \<Rightarrow> json_error 500 (js ''Failed to rewrite message. Please try again.''))"

section \<open>Words as maximal runs: the notions used by the proofs\<close>

fun runs :: "jsstring \<Rightarrow> jsstring list" where
  "runs [] = []"
| "runs (c # cs) =
     (case runs cs of
        [] \<Rightarrow> [[c]]
      | t # ts \<Rightarrow> if is_word_char c = word_at t then (c # t) # ts else [c] # t # ts)"

fun alt_from :: "bool \<Rightarrow> jsstring list \<Rightarrow> bool" where
  "alt_from b [] = True"
| "alt_from b (t # ts) = (t \<noteq> [] \<and> (\<forall>x\<in>set t. is_word_char x = b) \<and> alt_from (\<not> b) ts)"

definition ci :: "jsstring \<Rightarrow> jsstring \<Rightarrow> bool" where
  "ci p t \<longleftrightarrow> map canonicalize p = map canonicalize t"

fun tprefix :: "jsstring list \<Rightarrow> jsstring list \<Rightarrow> bool" where
  "tprefix [] ts = True"
| "tprefix (p # ps) [] = False"
| "tprefix (p # ps) (t # ts) = (ci p t \<and> tprefix ps ts)"

fun texec :: "jsstring list list \<Rightarrow> jsstring list \<Rightarrow> jsstring list option" where
  "texec [] ts = None"
| "texec (a # as) ts = (if tprefix a ts then Some a else texec as ts)"

fun trep :: "jsstring list list \<Rightarrow> jsstring list \<Rightarrow> jsstring list \<Rightarrow> jsstring list" where
  "trep A R [] = []"
| "trep A R (t # ts) =
     (case texec A (t # ts) of
        None \<Rightarrow> t # trep A R ts
      | Some a \<Rightarrow> R @ trep A R (drop (length a - 1) ts))"

definition accepts :: "(bool \<times> jsstring) option \<Rightarrow> bool" where
  "accepts x = (case x of None \<Rightarrow> False | Some (pw', rest) \<Rightarrow> boundary pw' rest)"

definition wf_alt :: "jsstring list \<Rightarrow> bool" where
  "wf_alt ta \<longleftrightarrow> alt_from True ta \<and> odd (length ta)"

fun nomatch :: "jsstring list list \<Rightarrow> jsstring list \<Rightarrow> bool" where
  "nomatch A [] = True"
| "nomatch A (t # ts) = (texec A (t # ts) = None \<and> nomatch A ts)"

definition independent :: "jsstring list list \<Rightarrow> jsstring list \<Rightarrow> bool" where
  "independent A R \<longleftrightarrow>
     R \<noteq> [] \<and>
     (\<forall>a\<in>set A. a \<noteq> [] \<and> (\<forall>r\<in>set R. \<not> ci (hd a) r) \<and> (\<forall>x\<in>set a. \<not> ci x (hd R)))"

definition talts :: "rule \<Rightarrow> jsstring list list" where
  "talts rl = map runs (pattern rl)"

definition trepl :: "rule \<Rightarrow> jsstring list" where
  "trepl rl = runs (replacement rl)"

definition tapply :: "rule list \<Rightarrow> jsstring list \<Rightarrow> jsstring list" where
  "tapply rules ts = fold (\<lambda>rl. trep (talts rl) (trepl rl)) rules ts"

definition wf_rule :: "rule \<Rightarrow> bool" where
  "wf_rule rl \<longleftrightarrow> (\<forall>a\<in>set (pattern rl). wf_alt (runs a)) \<and> wf_alt (runs (replacement rl))"

fun compatible :: "rule list \<Rightarrow> bool" where
  "compatible [] = True"
| "compatible (rl # rls) =
     ((\<forall>k\<in>set (rl # rls). independent (talts rl) (trepl k)) \<and> compatible rls)"

fun compatible_tok :: "(jsstring list list \<times> jsstring list) list \<Rightarrow> bool" where
  "compatible_tok [] = True"
| "compatible_tok ((A, R) # rls) =
     ((\<forall>k\<in>set ((A, R) # rls). independent A (snd k)) \<and> compatible_tok rls)"

definition wordy :: "jsstring list \<Rightarrow> bool" where
  "wordy A \<longleftrightarrow> (\<forall>a\<in>set A. a \<noteq> [] \<and> is_word_char (hd a) \<and> is_word_char (last a))"

fun text_of :: "piece \<Rightarrow> jsstring" where
  "text_of (Kept c) = [c]"
| "text_of (Matched m) = m"

definition prev_word :: "bool \<Rightarrow> jsstring \<Rightarrow> bool" where
  "prev_word pw pre = (if pre = [] then pw else is_word_char (last pre))"

definition whole_words :: "jsstring \<Rightarrow> jsstring \<Rightarrow> jsstring \<Rightarrow> bool" where
  \<comment> \<open>\<open>m\<close>, found between \<open>pre\<close> and \<open>post\<close>, begins and ends with a word character and
      has no word character next to it on either side\<close>
  "whole_words pre m post \<longleftrightarrow>
     m \<noteq> [] \<and> is_word_char (hd m) \<and> is_word_char (last m) \<and>
     \<not> prev_word False pre \<and> \<not> word_at post"

definition texts :: "piece list \<Rightarrow> jsstring" where
  "texts ps = concat (map text_of ps)"

text \<open>A concrete engine and a concrete moderation service, for the instances below.\<close>

definition stub_runtime :: "jsval \<Rightarrow> runtime" where
  \<comment> \<open>an engine whose \<open>JSON.parse\<close> yields the given value\<close>
  "stub_runtime parsed =
     \<lparr>unicode_upper = (\<lambda>c. [c]),
      JSON_parse = (\<lambda>v. Inr parsed),
      to_number_other = (\<lambda>v. NaN),
      type_error = (\<lambda>v k. Error (Some (js ''Cannot read properties of undefined'')))\<rparr>"

definition stub_upstream :: "js_error + jsval \<Rightarrow> upstream" where
  \<comment> \<open>a service that connects and answers every call with the given outcome\<close>
  "stub_upstream outcome = \<lparr>connect = (\<lambda>token. None), predict = (\<lambda>msg safer. outcome)\<rparr>"

definition capitalize :: "'r runtime_scheme \<Rightarrow> jsstring \<Rightarrow> jsstring" where
  \<comment> \<open>the first code unit in upper case, the rest unchanged\<close>
  "capitalize rt s = (case s of [] \<Rightarrow> [] | c # cs \<Rightarrow> toUpperCase_unit rt c @ cs)"

definition tone_prefix :: "jsstring \<Rightarrow> jsstring" where
  "tone_prefix tone =
     (if tone = js ''professional'' then js ''I wanted to share some feedback regarding this matter. ''
      else if tone = js ''calm'' then js ''I understand there may be different perspectives here. ''
      else if tone = js ''friendly'' then js ''Hey! I wanted to chat about something. ''
      else js ''Quick note: '')"

definition tone_suffix :: "jsstring \<Rightarrow> jsstring" where
  "tone_suffix tone =
     (if tone = js ''professional'' then
        js '' I believe addressing this could lead to better outcomes. Please let me know your thoughts.''
      else if tone = js ''calm'' then
        js '' I'' @ [39] @ js ''d appreciate the opportunity to discuss this further when you have time.''
      else if tone = js ''friendly'' then
        js '' Would love to hear your take on this! '' @ [63743, 252, 242, 228]
      else js '' Let'' @ [39] @ js ''s discuss.'')"

definition framed :: "'r runtime_scheme \<Rightarrow> jsstring \<Rightarrow> jsstring \<Rightarrow> jsstring" where
  \<comment> \<open>the output as the specification describes it, from the tone and the softened text\<close>
  "framed rt tone softened =
     (let core = trim (collapse_spaces softened)
      in if tone = js ''short'' then tone_prefix tone @ trim (firstSentence core) @ tone_suffix tone
         else tone_prefix tone @ capitalize rt core @ tone_suffix tone)"

definition answered ::
    "'r runtime_scheme \<Rightarrow> upstream \<Rightarrow> jsstring \<Rightarrow> jsval \<Rightarrow> jsstring \<Rightarrow> jsval \<Rightarrow> jsval \<Rightarrow> bool" where
  \<comment> \<open>the request \<open>b\<close> with the text \<open>t\<close> passes validation, the token \<open>tk\<close> is set, the
      service connects and yields \<open>result\<close>, whose payload parses to \<open>payload\<close>\<close>
  "answered rt up tk b t result payload \<longleftrightarrow>
     \<not> nullish b \<and> get_prop b (js ''text'') = Str t \<and> trim t \<noteq> [] \<and> length t \<le> 5000 \<and>
     tk \<noteq> [] \<and> connect up tk = None \<and>
     predict up t (if get_prop b (js ''safer'') = Undefined then Num (decimal 1 10)
                   else get_prop b (js ''safer'')) = Inr result \<and>
     \<not> nullish result \<and> truthy (second (get_prop result (js ''data''))) \<and>
     JSON_parse rt (second (get_prop result (js ''data''))) = Inr payload"

section \<open>The regular expressions act on maximal runs\<close>

lemma canon_word: "canonicalize p = canonicalize c \<Longrightarrow> is_word_char p = is_word_char c"
  by (auto simp: canonicalize_def is_word_char_def split: if_splits)

lemma concat_runs: "concat (runs s) = s"
  by (induction s) (auto split: list.splits)

lemma runs_Nil_iff: "runs s = [] \<longleftrightarrow> s = []"
  by (cases s) (auto split: list.splits)

lemma runs_head: "runs s = t # ts \<Longrightarrow> t \<noteq> [] \<and> word_at t = word_at s"
  by (cases s) (auto split: list.splits if_splits)

lemma alt_from_runs: "alt_from (word_at s) (runs s)"
proof (induction s)
  case Nil
  show ?case by simp
next
  case (Cons c cs)
  show ?case
  proof (cases "runs cs")
    case Nil
    then show ?thesis by simp
  next
    case (Cons t ts)
    from runs_head [OF Cons] have h: "t \<noteq> []" "word_at t = word_at cs" by simp_all
    from Cons.IH Cons h have a: "alt_from (word_at t) (t # ts)" by simp
    show ?thesis using a Cons h by auto
  qed
qed

lemma runs_token:
  assumes "t \<noteq> []" "\<forall>x\<in>set t. is_word_char x = b" "s = [] \<or> word_at s \<noteq> b"
  shows "runs (t @ s) = t # runs s"
  using assms
proof (induction t)
  case Nil
  then show ?case by simp
next
  case (Cons c t)
  show ?case
  proof (cases "t = []")
    case True
    show ?thesis
    proof (cases "runs s")
      case Nil
      then show ?thesis using True by simp
    next
      case (Cons u us)
      from runs_head [OF Cons] have "word_at u = word_at s" by simp
      moreover from Cons have "s \<noteq> []" by auto
      ultimately show ?thesis using True Cons Cons.prems by auto
    qed
  next
    case False
    then have "runs (t @ s) = t # runs s" using Cons by simp
    moreover have "word_at t = b" using False Cons.prems by (cases t) auto
    ultimately show ?thesis using Cons.prems by simp
  qed
qed

lemma alt_from_concat_head: "alt_from b ts \<Longrightarrow> concat ts = [] \<or> word_at (concat ts) = b"
  by (cases ts) (auto simp: neq_Nil_conv)

lemma alt_from_concat_Nil: "alt_from b ts \<Longrightarrow> concat ts = [] \<longleftrightarrow> ts = []"
  by (cases ts) auto

lemma runs_concat: "alt_from b ts \<Longrightarrow> runs (concat ts) = ts"
proof (induction ts arbitrary: b)
  case Nil
  show ?case by simp
next
  case (Cons t ts)
  then have ih: "runs (concat ts) = ts" and a: "alt_from (\<not> b) ts" by auto
  from alt_from_concat_head [OF a] have "concat ts = [] \<or> word_at (concat ts) \<noteq> b" by auto
  with Cons.prems have "runs (t @ concat ts) = t # runs (concat ts)"
    by (intro runs_token [where b = b]) auto
  with ih show ?case by simp
qed

lemma match_alt_accepts: "match_alt pw s a \<longleftrightarrow> boundary pw s \<and> accepts (eat a pw s)"
  by (simp add: match_alt_def accepts_def)

lemma ci_Nil [simp]: "ci [] t \<longleftrightarrow> t = []" "ci p [] \<longleftrightarrow> p = []"
  by (auto simp: ci_def)

lemma ci_Cons [simp]: "ci (x # p) (y # t) \<longleftrightarrow> canonicalize x = canonicalize y \<and> ci p t"
  by (auto simp: ci_def)

lemma ci_length: "ci p t \<Longrightarrow> length p = length t"
  unfolding ci_def by (metis length_map)

lemma ci_word_at: "ci p t \<Longrightarrow> word_at p = word_at t"
  by (cases p; cases t) (auto dest: canon_word)

lemma eat_run:
  assumes "\<forall>x\<in>set p. is_word_char x = b" "\<forall>x\<in>set t. is_word_char x = b"
    and "rest = [] \<or> word_at rest \<noteq> b" "q = [] \<or> word_at q \<noteq> b"
    and "p \<noteq> []" "t \<noteq> []"
  shows "accepts (eat (p @ q) pw (t @ rest)) \<longleftrightarrow> ci p t \<and> accepts (eat q b rest)"
  using assms
proof (induction p arbitrary: t pw)
  case Nil
  then show ?case by simp
next
  case (Cons x p)
  from Cons.prems obtain y t' where t: "t = y # t'" by (cases t) auto
  have wy: "is_word_char y = b" using Cons.prems t by simp
  show ?case
  proof (cases "canonicalize x = canonicalize y")
    case False
    then show ?thesis using t by (simp add: accepts_def)
  next
    case True
    have step: "accepts (eat (p @ q) b (t' @ rest)) \<longleftrightarrow> ci p t' \<and> accepts (eat q b rest)"
    proof (cases "p = []")
      case pn: True
      show ?thesis
      proof (cases t')
        case Nil
        then show ?thesis using pn by simp
      next
        case (Cons y' t'')
        have wy': "is_word_char y' = b" using Cons.prems(2) t Cons by simp
        show ?thesis
        proof (cases q)
          case Nil
          then show ?thesis using pn Cons wy' by (simp add: accepts_def boundary_def)
        next
          case qc: (Cons z q')
          then have "is_word_char z \<noteq> b" using Cons.prems(4) by simp
          then have "canonicalize z \<noteq> canonicalize y'" using wy' canon_word by blast
          then show ?thesis using pn Cons qc by (simp add: accepts_def)
        qed
      qed
    next
      case pc: False
      then obtain z p' where p: "p = z # p'" by (cases p) auto
      have wz: "is_word_char z = b" using Cons.prems(1) p by simp
      show ?thesis
      proof (cases t')
        case Nil
        show ?thesis
        proof (cases rest)
          case rn: Nil
          then show ?thesis using p Nil by (simp add: accepts_def)
        next
          case rc: (Cons r rest')
          then have "is_word_char r \<noteq> b" using Cons.prems(3) by simp
          then have "canonicalize z \<noteq> canonicalize r" using wz canon_word by blast
          then show ?thesis using p Nil rc by (simp add: accepts_def)
        qed
      next
        case tc: (Cons y' t'')
        show ?thesis
          using Cons.IH [of t' b] Cons.prems pc t tc by simp
      qed
    qed
    show ?thesis using True t wy step by simp
  qed
qed

lemma eat_mismatch:
  assumes "is_word_char x \<noteq> is_word_char y"
  shows "eat (x # p) pw (y # s) = None"
proof -
  have "canonicalize x \<noteq> canonicalize y" using assms canon_word by blast
  then show ?thesis by simp
qed

lemma accepts_tokens:
  assumes "alt_from b ta" "ta \<noteq> []" "b = odd (length ta)" "alt_from b' ts"
  shows "accepts (eat (concat ta) pw (concat ts)) \<longleftrightarrow> tprefix ta ts"
  using assms
proof (induction ta arbitrary: b b' ts pw)
  case Nil
  then show ?case by simp
next
  case (Cons p ta)
  from Cons.prems obtain x p' where p: "p = x # p'" by (cases p) auto
  show ?case
  proof (cases ts)
    case Nil
    then show ?thesis using p by (simp add: accepts_def)
  next
    case tsc: (Cons t ts')
    from Cons.prems tsc obtain y t' where t: "t = y # t'" by (cases t) auto
    show ?thesis
    proof (cases "b' = b")
      case False
      then have "is_word_char x \<noteq> is_word_char y" using Cons.prems p t tsc by auto
      then have "canonicalize x \<noteq> canonicalize y" using canon_word by blast
      then show ?thesis using p t tsc by (simp add: accepts_def)
    next
      case True
      have r: "concat ts' = [] \<or> word_at (concat ts') \<noteq> b"
        using alt_from_concat_head [of "\<not> b" ts'] Cons.prems tsc True by auto
      have q: "concat ta = [] \<or> word_at (concat ta) \<noteq> b"
        using alt_from_concat_head [of "\<not> b" ta] Cons.prems by auto
      have e: "accepts (eat (p @ concat ta) pw (t @ concat ts')) \<longleftrightarrow>
          ci p t \<and> accepts (eat (concat ta) b (concat ts'))"
        using Cons.prems tsc True by (intro eat_run r q) auto
      show ?thesis
      proof (cases "ta = []")
        case tn: True
        then have "b" using Cons.prems by simp
        moreover have "\<not> word_at (concat ts')"
        proof (cases "concat ts' = []")
          case True
          show ?thesis unfolding True by simp
        next
          case False
          then show ?thesis using r \<open>b\<close> by blast
        qed
        ultimately have "boundary b (concat ts')" by (simp add: boundary_def)
        then show ?thesis using e tn tsc by (simp add: accepts_def)
      next
        case False
        have "accepts (eat (concat ta) b (concat ts')) = tprefix ta ts'"
          using Cons.prems tsc True False by (intro Cons.IH [of "\<not> b" "\<not> b"]) auto
        then show ?thesis using e tsc by simp
      qed
    qed
  qed
qed

lemma tprefix_word:
  assumes "tprefix ta ts" "wf_alt ta" "alt_from b ts"
  shows "b \<and> ts \<noteq> []"
proof -
  from assms(2) obtain p ta' where ta: "ta = p # ta'" "p \<noteq> []" "\<forall>x\<in>set p. is_word_char x"
    by (cases ta) (auto simp: wf_alt_def)
  with assms(1) obtain t ts' where ts: "ts = t # ts'" "ci p t" by (cases ts) auto
  from ta have "word_at p" by (cases p) auto
  with ts have "word_at t" using ci_word_at by blast
  with assms(3) ts show ?thesis by (cases t) auto
qed

lemma regex_exec_tokens:
  assumes "\<forall>ta\<in>set TA. wf_alt ta" "alt_from b ts" "b \<longrightarrow> \<not> pw"
  shows "regex_exec (map concat TA) pw (concat ts) =
    map_option (\<lambda>a. length (concat a)) (texec TA ts)"
  using assms(1)
proof (induction TA)
  case Nil
  show ?case by simp
next
  case (Cons ta TA)
  then have wf: "wf_alt ta" by simp
  then have ne: "ta \<noteq> []" by (auto simp: wf_alt_def)
  have acc: "accepts (eat (concat ta) pw (concat ts)) \<longleftrightarrow> tprefix ta ts"
    using wf ne assms(2) by (intro accepts_tokens [of True]) (auto simp: wf_alt_def)
  have "match_alt pw (concat ts) (concat ta) \<longleftrightarrow> tprefix ta ts"
  proof (cases "tprefix ta ts")
    case False
    then show ?thesis using acc by (simp add: match_alt_accepts)
  next
    case True
    from tprefix_word [OF True wf assms(2)] have b: "b" and tsn: "ts \<noteq> []" by simp_all
    then obtain t ts' where ts: "ts = t # ts'" by (cases ts) auto
    with assms(2) b have "word_at (concat ts)" by (cases t) auto
    moreover have "\<not> pw" using assms(3) b by simp
    ultimately have "boundary pw (concat ts)" by (simp add: boundary_def)
    then show ?thesis using acc True by (simp add: match_alt_accepts)
  qed
  then show ?case using Cons by simp
qed

lemma texec_Some: "texec TA ts = Some a \<Longrightarrow> a \<in> set TA \<and> tprefix a ts"
  by (induction TA) (auto split: if_splits)

lemma texec_None: "texec TA ts = None \<longleftrightarrow> (\<forall>a\<in>set TA. \<not> tprefix a ts)"
  by (induction TA) auto

lemma tprefix_drop:
  "tprefix a ts \<Longrightarrow> drop (length (concat a)) (concat ts) = concat (drop (length a) ts)"
proof (induction a arbitrary: ts)
  case Nil
  show ?case by simp
next
  case (Cons p a)
  then obtain t ts' where ts: "ts = t # ts'" "ci p t" "tprefix a ts'" by (cases ts) auto
  from ts(2) have "length p = length t" by (rule ci_length)
  with Cons.IH [OF ts(3)] ts(1) show ?case by simp
qed

lemma alt_from_drop: "alt_from b ts \<Longrightarrow> alt_from (b \<noteq> odd n) (drop n ts)"
proof (induction ts arbitrary: b n)
  case Nil
  show ?case by simp
next
  case (Cons t ts)
  show ?case
  proof (cases n)
    case 0
    then show ?thesis using Cons.prems by simp
  next
    case (Suc m)
    from Cons.prems have "alt_from (\<not> b) ts" by simp
    from Cons.IH [OF this, of m] show ?thesis using Suc by simp
  qed
qed

lemma alt_from_append:
  "alt_from b (xs @ ys) \<longleftrightarrow> alt_from b xs \<and> alt_from (b \<noteq> odd (length xs)) ys"
proof (induction xs arbitrary: b)
  case Nil
  show ?case by simp
next
  case (Cons t xs)
  have e: "(b \<noteq> odd (length (t # xs))) = ((\<not> b) \<noteq> odd (length xs))" by auto
  show ?case unfolding e using Cons.IH [of "\<not> b"] by auto
qed

lemma regex_exec_nonword:
  assumes "\<forall>a\<in>set A. word_at a" "\<not> is_word_char c"
  shows "regex_exec A pw (c # s) = None"
  using assms(1)
proof (induction A)
  case Nil
  show ?case by simp
next
  case (Cons a A)
  then obtain x a' where a: "a = x # a'" "is_word_char x" by (cases a) auto
  with assms(2) have "eat a pw (c # s) = None" using eat_mismatch [of x c] by simp
  then show ?case using Cons by (simp add: match_alt_def)
qed

lemma regex_exec_inword:
  assumes "is_word_char c"
  shows "regex_exec A True (c # s) = None"
  using assms by (induction A) (auto simp: match_alt_def boundary_def)

lemma scan_nonword:
  assumes "\<forall>a\<in>set A. word_at a" "\<forall>x\<in>set t. \<not> is_word_char x" "t \<noteq> []"
  shows "scan A pw (t @ rest) = map Kept t @ scan A False rest"
  using assms(2,3)
proof (induction t arbitrary: pw)
  case Nil
  then show ?case by simp
next
  case (Cons c t)
  have e: "regex_exec A pw (c # t @ rest) = None"
    using assms(1) Cons.prems by (intro regex_exec_nonword) auto
  show ?case
  proof (cases "t = []")
    case True
    then show ?thesis using e Cons.prems by simp
  next
    case False
    then show ?thesis using e Cons by simp
  qed
qed

lemma scan_inword:
  assumes "\<forall>x\<in>set t. is_word_char x"
  shows "scan A True (t @ rest) = map Kept t @ scan A True rest"
  using assms
proof (induction t)
  case Nil
  show ?case by simp
next
  case (Cons c t)
  then have "regex_exec A True (c # t @ rest) = None" by (intro regex_exec_inword) simp
  then show ?case using Cons by simp
qed

lemma wf_alt_word_at: "wf_alt ta \<Longrightarrow> word_at (concat ta)"
  by (cases ta) (auto simp: wf_alt_def neq_Nil_conv)

lemma concat_render_Kept: "concat (map (render r \<circ> Kept) t) = t"
  by (induction t) auto

lemma scan_tokens:
  assumes wf: "\<forall>ta\<in>set TA. wf_alt ta"
  shows "alt_from b ts \<Longrightarrow> (b \<longrightarrow> \<not> pw) \<Longrightarrow>
    concat (map (render (concat R)) (scan (map concat TA) pw (concat ts))) = concat (trep TA R ts)"
proof (induction "length ts" arbitrary: ts b pw rule: less_induct)
  case less
  let ?A = "map concat TA"
  have wa: "\<forall>a\<in>set ?A. word_at a" using wf wf_alt_word_at by auto
  show ?case
  proof (cases ts)
    case Nil
    have "\<forall>a\<in>set TA. \<not> tprefix a []"
    proof
      fix a assume "a \<in> set TA"
      with wf have "a \<noteq> []" by (auto simp: wf_alt_def)
      then show "\<not> tprefix a []" by (cases a) auto
    qed
    then have "texec TA ts = None" using Nil by (simp add: texec_None)
    then have "regex_exec ?A pw (concat ts) = None"
      using regex_exec_tokens [OF wf less.prems] by simp
    then show ?thesis using Nil by simp
  next
    case (Cons t ts')
    from less.prems Cons have t: "t \<noteq> []" "\<forall>x\<in>set t. is_word_char x = b"
      and a': "alt_from (\<not> b) ts'" by auto
    show ?thesis
    proof (cases b)
      case False
      have ex: "texec TA (t # ts') = None"
        using tprefix_word [OF _ _ less.prems(1)] wf False Cons by (auto simp: texec_None)
      have "scan ?A pw (t @ concat ts') = map Kept t @ scan ?A False (concat ts')"
        using wa t False by (intro scan_nonword) auto
      moreover have "concat (map (render (concat R)) (scan ?A False (concat ts'))) = concat (trep TA R ts')"
        using a' Cons by (intro less.hyps [of ts' "\<not> b"]) auto
      ultimately show ?thesis using Cons ex by (simp add: concat_render_Kept)
    next
      case True
      then have pw: "\<not> pw" using less.prems by simp
      from t obtain c t0 where tc: "t = c # t0" by (cases t) auto
      show ?thesis
      proof (cases "texec TA (t # ts')")
        case None
        have "regex_exec ?A pw (concat ts) = None"
          using regex_exec_tokens [OF wf less.prems] None Cons by simp
        then have "scan ?A pw (concat ts) = Kept c # scan ?A True (t0 @ concat ts')"
          using Cons tc t True by simp
        also have "scan ?A True (t0 @ concat ts') = map Kept t0 @ scan ?A True (concat ts')"
          using t tc True by (intro scan_inword) auto
        finally have "scan ?A pw (concat ts) = map Kept t @ scan ?A True (concat ts')"
          using tc by simp
        moreover have "concat (map (render (concat R)) (scan ?A True (concat ts'))) = concat (trep TA R ts')"
          using a' Cons True by (intro less.hyps [of ts' "\<not> b"]) auto
        ultimately show ?thesis using Cons None by (simp add: concat_render_Kept)
      next
        case (Some a)
        from texec_Some [OF Some] have ain: "a \<in> set TA" and pre: "tprefix a (t # ts')" by simp_all
        from ain wf have wfa: "wf_alt a" by simp
        then have an: "a \<noteq> []" "odd (length a)" by (auto simp: wf_alt_def)
        from wf_alt_word_at [OF wfa] obtain n where n: "length (concat a) = Suc n"
          by (cases "concat a") auto
        have "regex_exec ?A pw (concat ts) = Some (Suc n)"
          using regex_exec_tokens [OF wf less.prems] Some Cons n by simp
        moreover obtain cs where cs: "concat ts = c # cs" using Cons tc by simp
        ultimately have sc: "scan ?A pw (concat ts) =
            Matched (c # take n cs) # scan ?A (is_word_char (last (c # take n cs))) (drop n cs)"
          by simp
        have "drop n cs = drop (Suc n) (concat ts)" using cs by simp
        also have "\<dots> = concat (drop (length a) (t # ts'))"
          using tprefix_drop [OF pre] n Cons by simp
        also have "drop (length a) (t # ts') = drop (length a - 1) ts'"
          using an by (cases "length a") auto
        finally have d: "drop n cs = concat (drop (length a - 1) ts')" .
        have "alt_from ((\<not> b) \<noteq> odd (length a - 1)) (drop (length a - 1) ts')"
          using a' by (rule alt_from_drop)
        moreover have "even (length a - 1)" using an by simp
        then have "((\<not> b) \<noteq> odd (length a - 1)) = False" using True by blast
        ultimately have "alt_from False (drop (length a - 1) ts')" by (simp only:)
        then have "concat (map (render (concat R))
            (scan ?A (is_word_char (last (c # take n cs))) (concat (drop (length a - 1) ts')))) =
            concat (trep TA R (drop (length a - 1) ts'))"
          using Cons by (intro less.hyps [of _ False]) auto
        then show ?thesis using sc d Cons Some by simp
      qed
    qed
  qed
qed

lemma replace_regex_tokens:
  assumes "\<forall>a\<in>set A. wf_alt (runs a)"
  shows "replace_regex A r s = concat (trep (map runs A) (runs r) (runs s))"
proof -
  have wf: "\<forall>ta\<in>set (map runs A). wf_alt ta" using assms by simp
  have m: "map concat (map runs A) = A" by (induction A) (simp_all add: concat_runs)
  have "concat (map (render (concat (runs r))) (scan (map concat (map runs A)) False (concat (runs s)))) =
      concat (trep (map runs A) (runs r) (runs s))"
    using wf alt_from_runs by (rule scan_tokens) simp
  then show ?thesis unfolding m concat_runs replace_regex_def .
qed

lemma drop_after_match:
  assumes "wf_alt a" "alt_from False ts"
  shows "alt_from False (drop (length a - 1) ts)"
proof -
  have "even (length a - 1)" using assms(1) by (auto simp: wf_alt_def)
  then have "(False \<noteq> odd (length a - 1)) = False" by blast
  with alt_from_drop [OF assms(2), of "length a - 1"] show ?thesis by (simp only:)
qed

lemma trep_alt_from:
  assumes wf: "\<forall>ta\<in>set TA. wf_alt ta" and wfR: "wf_alt R"
  shows "alt_from b ts \<Longrightarrow> alt_from b (trep TA R ts)"
proof (induction "length ts" arbitrary: ts b rule: less_induct)
  case less
  show ?case
  proof (cases ts)
    case Nil
    then show ?thesis by simp
  next
    case (Cons t ts')
    from less.prems Cons have a': "alt_from (\<not> b) ts'" by simp
    show ?thesis
    proof (cases "texec TA (t # ts')")
      case None
      have "alt_from (\<not> b) (trep TA R ts')" using a' Cons by (intro less.hyps) auto
      then show ?thesis using less.prems Cons None by simp
    next
      case (Some a)
      from texec_Some [OF Some] have ain: "a \<in> set TA" and pre: "tprefix a (t # ts')" by simp_all
      from ain wf have wfa: "wf_alt a" by simp
      have "alt_from b (t # ts')" using less.prems Cons by simp
      from tprefix_word [OF pre wfa this] have b: "b" by simp
      have "alt_from False (drop (length a - 1) ts')" using a' b wfa by (intro drop_after_match) auto
      then have "alt_from False (trep TA R (drop (length a - 1) ts'))"
        using Cons by (intro less.hyps) auto
      moreover have "(True \<noteq> odd (length R)) = False" using wfR by (auto simp: wf_alt_def)
      ultimately have "alt_from True (R @ trep TA R (drop (length a - 1) ts'))"
        using wfR by (simp add: alt_from_append wf_alt_def)
      then show ?thesis using Cons Some b by simp
    qed
  qed
qed

lemma trep_id: "nomatch A ts \<Longrightarrow> trep A R ts = ts"
  by (induction ts) auto

lemma nomatch_drop: "nomatch A ts \<Longrightarrow> nomatch A (drop n ts)"
proof (induction ts arbitrary: n)
  case Nil
  show ?case by simp
next
  case (Cons t ts)
  then show ?case by (cases n) auto
qed

lemma nomatch_block:
  assumes "\<forall>a\<in>set A. a \<noteq> [] \<and> (\<forall>r\<in>set R. \<not> ci (hd a) r)" "nomatch A X"
  shows "nomatch A (R @ X)"
  using assms(1)
proof (induction R)
  case Nil
  show ?case using assms(2) by simp
next
  case (Cons r R)
  have "\<forall>a\<in>set A. \<not> tprefix a (r # R @ X)"
  proof
    fix a assume "a \<in> set A"
    with Cons.prems obtain a0 a' where "a = a0 # a'" "\<not> ci a0 r" by (cases a) auto
    then show "\<not> tprefix a (r # R @ X)" by simp
  qed
  then have "texec A (r # R @ X) = None" by (simp add: texec_None)
  moreover have "nomatch A (R @ X)" using Cons by simp
  ultimately show ?case by simp
qed

lemma tprefix_trep:
  assumes "R \<noteq> []"
  shows "\<forall>x\<in>set q. \<not> ci x (hd R) \<Longrightarrow> tprefix q (trep B R ts) \<Longrightarrow> tprefix q ts"
proof (induction q arbitrary: ts)
  case Nil
  show ?case by simp
next
  case (Cons x q)
  from assms obtain r0 R' where R: "R = r0 # R'" by (cases R) auto
  show ?case
  proof (cases ts)
    case Nil
    then show ?thesis using Cons.prems by simp
  next
    case ts: (Cons u ts')
    show ?thesis
    proof (cases "texec B (u # ts')")
      case None
      then have "ci x u" "tprefix q (trep B R ts')" using Cons.prems ts by simp_all
      moreover from this Cons have "tprefix q ts'" by simp
      ultimately show ?thesis using ts by simp
    next
      case (Some b)
      then have "ci x r0" using Cons.prems ts R by simp
      then show ?thesis using Cons.prems R by simp
    qed
  qed
qed

lemma nomatch_trep:
  assumes ind: "independent A R"
  shows "B = A \<or> nomatch A ts \<Longrightarrow> nomatch A (trep B R ts)"
proof (induction "length ts" arbitrary: ts rule: less_induct)
  case less
  from ind have Rn: "R \<noteq> []" by (simp add: independent_def)
  show ?case
  proof (cases ts)
    case Nil
    then show ?thesis by simp
  next
    case (Cons t ts')
    have rec: "B = A \<or> nomatch A (drop n ts')" for n
      using less.prems Cons nomatch_drop [of A ts' n] by auto
    show ?thesis
    proof (cases "texec B (t # ts')")
      case None
      have here: "texec A (t # ts') = None" using less.prems None Cons by auto
      have "\<forall>a\<in>set A. \<not> tprefix a (t # trep B R ts')"
      proof
        fix a assume ain: "a \<in> set A"
        with ind obtain a0 q where a: "a = a0 # q" and q: "\<forall>x\<in>set q. \<not> ci x (hd R)"
          by (cases a) (auto simp: independent_def)
        show "\<not> tprefix a (t # trep B R ts')"
        proof
          assume "tprefix a (t # trep B R ts')"
          then have "ci a0 t" "tprefix q (trep B R ts')" using a by simp_all
          with tprefix_trep [OF Rn q] have "tprefix a (t # ts')" using a by simp
          with here ain show False by (simp add: texec_None)
        qed
      qed
      then have "texec A (t # trep B R ts') = None" by (simp add: texec_None)
      moreover have "nomatch A (trep B R ts')"
        using rec [of 0] Cons by (intro less.hyps) auto
      ultimately show ?thesis using Cons None by simp
    next
      case (Some b)
      have "nomatch A (trep B R (drop (length b - 1) ts'))"
        using rec [of "length b - 1"] Cons by (intro less.hyps) auto
      moreover have "\<forall>a\<in>set A. a \<noteq> [] \<and> (\<forall>r\<in>set R. \<not> ci (hd a) r)"
        using ind by (simp add: independent_def)
      ultimately have "nomatch A (R @ trep B R (drop (length b - 1) ts'))"
        by (intro nomatch_block) auto
      then show ?thesis using Cons Some by simp
    qed
  qed
qed

lemma tapply_alt_from:
  "\<forall>rl\<in>set rules. wf_rule rl \<Longrightarrow> alt_from b ts \<Longrightarrow> alt_from b (tapply rules ts)"
proof (induction rules arbitrary: ts)
  case Nil
  then show ?case by (simp add: tapply_def)
next
  case (Cons rl rules)
  then have "alt_from b (trep (talts rl) (trepl rl) ts)"
    by (intro trep_alt_from) (auto simp: wf_rule_def talts_def trepl_def)
  with Cons show ?case by (simp add: tapply_def)
qed

lemma apply_rules_tokens:
  "\<forall>rl\<in>set rules. wf_rule rl \<Longrightarrow> alt_from b ts \<Longrightarrow>
     apply_rules rules (concat ts) = concat (tapply rules ts)"
proof (induction rules arbitrary: ts)
  case Nil
  show ?case by (simp add: apply_rules_def tapply_def)
next
  case (Cons rl rules)
  let ?u = "trep (talts rl) (trepl rl) ts"
  have wf: "\<forall>a\<in>set (pattern rl). wf_alt (runs a)" "wf_alt (trepl rl)"
    using Cons.prems by (auto simp: wf_rule_def trepl_def)
  have "replace_regex (pattern rl) (replacement rl) (concat ts) = concat ?u"
    using replace_regex_tokens [OF wf(1)] runs_concat [OF Cons.prems(2)]
    by (simp add: talts_def trepl_def)
  moreover have "alt_from b ?u"
    using wf Cons.prems(2) by (intro trep_alt_from) (auto simp: talts_def)
  then have "apply_rules rules (concat ?u) = concat (tapply rules ?u)"
    using Cons by simp
  ultimately show ?case by (simp add: apply_rules_def tapply_def)
qed

lemma nomatch_tapply:
  "\<forall>k\<in>set rls. independent A (trepl k) \<Longrightarrow> nomatch A ts \<Longrightarrow> nomatch A (tapply rls ts)"
proof (induction rls arbitrary: ts)
  case Nil
  then show ?case by (simp add: tapply_def)
next
  case (Cons k rls)
  then have "nomatch A (trep (talts k) (trepl k) ts)" by (intro nomatch_trep) auto
  with Cons show ?case by (simp add: tapply_def)
qed

lemma compatible_nomatch:
  "compatible rules \<Longrightarrow> rl \<in> set rules \<Longrightarrow> nomatch (talts rl) (tapply rules ts)"
proof (induction rules arbitrary: ts)
  case Nil
  then show ?case by simp
next
  case (Cons k rules)
  show ?case
  proof (cases "rl = k")
    case True
    have "nomatch (talts k) (trep (talts k) (trepl k) ts)"
      using Cons.prems by (intro nomatch_trep) auto
    then have "nomatch (talts k) (tapply rules (trep (talts k) (trepl k) ts))"
      using Cons.prems by (intro nomatch_tapply) auto
    then show ?thesis using True by (simp add: tapply_def)
  next
    case False
    then have "nomatch (talts rl) (tapply rules (trep (talts k) (trepl k) ts))"
      using Cons by auto
    then show ?thesis by (simp add: tapply_def)
  qed
qed

lemma tapply_id: "\<forall>rl\<in>set rules. nomatch (talts rl) ts \<Longrightarrow> tapply rules ts = ts"
  by (induction rules) (auto simp: tapply_def trep_id)

lemma apply_rules_idem:
  assumes "\<forall>rl\<in>set rules. wf_rule rl" "compatible rules"
  shows "apply_rules rules (apply_rules rules s) = apply_rules rules s"
proof -
  let ?u = "tapply rules (runs s)"
  have a: "alt_from (word_at s) ?u" using assms(1) alt_from_runs by (rule tapply_alt_from)
  have "apply_rules rules s = concat ?u"
    using apply_rules_tokens [OF assms(1) alt_from_runs, of s] by (simp add: concat_runs)
  moreover have "apply_rules rules (concat ?u) = concat (tapply rules ?u)"
    using assms(1) a by (rule apply_rules_tokens)
  moreover have "tapply rules ?u = ?u"
    using compatible_nomatch [OF assms(2)] by (intro tapply_id) auto
  ultimately show ?thesis by simp
qed

lemma tok_forms: "map (\<lambda>rl. (talts rl, trepl rl)) aggressivePatterns =
  [([[js ''stupid''], [js ''dumb''], [js ''idiotic''], [js ''moronic'']], [js ''unclear'']),
   ([[js ''hate''], [js ''despise''], [js ''loathe'']], [js ''don'', [39], js ''t'', js '' '', js ''prefer'']),
   ([[js ''terrible''], [js ''awful''], [js ''horrible''], [js ''atrocious'']], [js ''not'', js '' '', js ''ideal'']),
   ([[js ''never''], [js ''always'']], [js ''sometimes'']),
   ([[js ''useless''], [js ''worthless'']], [js ''not'', js '' '', js ''quite'', js '' '', js ''working'']),
   ([[js ''waste'', js '' '', js ''of'', js '' '', js ''time'']], [js ''could'', js '' '', js ''be'', js '' '', js ''optimized'']),
   ([[js ''wrong''], [js ''incorrect'']], [js ''might'', js '' '', js ''need'', js '' '', js ''adjustment'']),
   ([[js ''obviously''], [js ''clearly'']], [js ''it'', js '' '', js ''seems'']),
   ([[js ''fail''], [js ''failed''], [js ''failure'']], [js ''didn'', [39], js ''t'', js '' '', js ''work'', js '' '', js ''out'']),
   ([[js ''ridiculous''], [js ''absurd'']], [js ''surprising''])]"
  by (simp add: aggressivePatterns_def talts_def trepl_def js_def is_word_char_def)

lemma compatible_tok: "compatible rules = compatible_tok (map (\<lambda>rl. (talts rl, trepl rl)) rules)"
  by (induction rules) auto

lemma compatible_aggressive: "compatible aggressivePatterns"
  unfolding compatible_tok tok_forms
  by (simp add: independent_def js_def canonicalize_def)

lemma wf_aggressive: "\<forall>rl\<in>set aggressivePatterns. wf_rule rl"
proof -
  have "list_all (\<lambda>(A, R). (\<forall>a\<in>set A. wf_alt a) \<and> wf_alt R) (map (\<lambda>rl. (talts rl, trepl rl)) aggressivePatterns)"
    unfolding tok_forms by (simp add: wf_alt_def js_def is_word_char_def)
  then show ?thesis by (auto simp: list_all_iff wf_rule_def talts_def trepl_def)
qed

lemma soften_soften: "soften (soften t) = soften t"
  unfolding soften_def using wf_aggressive compatible_aggressive by (rule apply_rules_idem)

lemma eat_Some:
  "eat a pw s = Some (pw', rest) \<Longrightarrow>
     length a \<le> length s \<and> rest = drop (length a) s \<and> ci a (take (length a) s) \<and>
     pw' = (if a = [] then pw else is_word_char (last (take (length a) s)))"
proof (induction a pw s rule: eat.induct)
  case (1 pw s)
  then show ?case by simp
next
  case (2 p ps pw)
  then show ?case by simp
next
  case (3 p ps pw c cs)
  then have eq: "canonicalize p = canonicalize c" and e: "eat ps (is_word_char c) cs = Some (pw', rest)"
    by (simp_all split: if_splits)
  from "3.IH" [OF eq e] have ih: "length ps \<le> length cs" "rest = drop (length ps) cs"
    "ci ps (take (length ps) cs)"
    "pw' = (if ps = [] then is_word_char c else is_word_char (last (take (length ps) cs)))"
    by simp_all
  have "pw' = is_word_char (last (c # take (length ps) cs))"
  proof (cases "ps = []")
    case True
    then show ?thesis using ih(4) by simp
  next
    case False
    then have "take (length ps) cs \<noteq> []" using ih(1) by (cases cs) auto
    then show ?thesis using ih(4) False by simp
  qed
  then show ?case using ih(1,2,3) eq by simp
qed

lemma ci_last: "ci a t \<Longrightarrow> a \<noteq> [] \<Longrightarrow> is_word_char (last a) = is_word_char (last t)"
proof (induction a arbitrary: t)
  case Nil
  then show ?case by simp
next
  case (Cons x a)
  then obtain y t' where t: "t = y # t'" by (cases t) auto
  with Cons.prems have c: "canonicalize x = canonicalize y" "ci a t'" by simp_all
  show ?case
  proof (cases "a = []")
    case True
    then have "t' = []" using c(2) by simp
    then show ?thesis using canon_word [OF c(1)] True t by simp
  next
    case False
    then have "t' \<noteq> []" using c(2) by auto
    then show ?thesis using Cons.IH [OF c(2) False] t False by simp
  qed
qed

lemma match_alt_facts:
  assumes "match_alt pw s a" "a \<noteq> []" "is_word_char (hd a)" "is_word_char (last a)"
  shows "\<not> pw \<and> length a \<le> length s \<and> word_at s \<and>
    is_word_char (last (take (length a) s)) \<and> \<not> word_at (drop (length a) s)"
proof -
  from assms(1) obtain pw' rest where e: "eat a pw s = Some (pw', rest)"
    and b: "boundary pw s" "boundary pw' rest"
    by (auto simp: match_alt_def split: option.splits)
  from eat_Some [OF e] assms(2) have f: "length a \<le> length s" "rest = drop (length a) s"
    "ci a (take (length a) s)" "pw' = is_word_char (last (take (length a) s))" by simp_all
  from assms(2,3) have "word_at a" by (cases a) simp_all
  with ci_word_at [OF f(3)] have "word_at (take (length a) s)" by simp
  moreover from assms(2) obtain x a' where "a = x # a'" by (cases a) auto
  ultimately have w: "word_at s" by (cases s) simp_all
  from ci_last [OF f(3) assms(2)] assms(4) have l: "is_word_char (last (take (length a) s))" by simp
  have "\<not> pw" using b(1) w by (simp add: boundary_def)
  moreover have "\<not> word_at (drop (length a) s)" using b(2) l f(2,4) by (simp add: boundary_def)
  ultimately show ?thesis using f(1) w l by simp
qed

lemma regex_exec_Some:
  "regex_exec A pw s = Some k \<Longrightarrow> \<exists>a\<in>set A. k = length a \<and> match_alt pw s a"
  by (induction A) (auto split: if_splits)

lemma texts_simps [simp]:
  "texts [] = []" "texts (Kept c # ps) = c # texts ps" "texts (Matched m # ps) = m @ texts ps"
  by (simp_all add: texts_def)

lemma prev_word_Nil [simp]: "prev_word pw [] = pw"
  by (simp add: prev_word_def)

lemma prev_word_append: "x \<noteq> [] \<Longrightarrow> prev_word pw (x @ pre) = prev_word (is_word_char (last x)) pre"
  by (simp add: prev_word_def)

lemma texts_scan: "texts (scan A pw s) = s"
  by (induction A pw s rule: scan.induct) (auto split: option.splits nat.splits)

lemma regex_exec_wordy:
  assumes "wordy A" "regex_exec A pw s = Some k"
  shows "0 < k \<and> \<not> pw \<and> k \<le> length s \<and> word_at s \<and>
    is_word_char (last (take k s)) \<and> \<not> word_at (drop k s)"
proof -
  from regex_exec_Some [OF assms(2)] obtain a where a: "a \<in> set A" "k = length a" "match_alt pw s a"
    by blast
  from assms(1) a(1) have w: "a \<noteq> []" "is_word_char (hd a)" "is_word_char (last a)"
    by (simp_all add: wordy_def)
  from match_alt_facts [OF a(3) w] w(1) a(2) show ?thesis by simp
qed

lemma scan_Matched:
  assumes "wordy A"
  shows "scan A pw s = xs @ Matched m # ys \<Longrightarrow>
    s = texts xs @ m @ texts ys \<and> m \<noteq> [] \<and> is_word_char (hd m) \<and> is_word_char (last m) \<and>
    \<not> prev_word pw (texts xs) \<and> \<not> word_at (texts ys)"
proof (induction "length s" arbitrary: s pw xs rule: less_induct)
  case less
  show ?case
  proof (cases s)
    case Nil
    have "regex_exec A pw [] = None"
    proof (cases "regex_exec A pw []")
      case None
      then show ?thesis .
    next
      case (Some k)
      from regex_exec_wordy [OF assms Some] show ?thesis by simp
    qed
    with less.prems Nil show ?thesis by simp
  next
    case (Cons c cs)
    show ?thesis
    proof (cases "regex_exec A pw (c # cs)")
      case None
      with less.prems Cons have sc: "Kept c # scan A (is_word_char c) cs = xs @ Matched m # ys" by simp
      then obtain xs' where xs: "xs = Kept c # xs'"
        and r: "scan A (is_word_char c) cs = xs' @ Matched m # ys"
        by (cases xs) auto
      have "cs = texts xs' @ m @ texts ys \<and> m \<noteq> [] \<and> is_word_char (hd m) \<and> is_word_char (last m) \<and>
          \<not> prev_word (is_word_char c) (texts xs') \<and> \<not> word_at (texts ys)"
        using r Cons by (intro less.hyps) auto
      moreover have "prev_word pw (texts xs) = prev_word (is_word_char c) (texts xs')"
        using xs prev_word_append [of "[c]" pw "texts xs'"] by simp
      ultimately show ?thesis using xs Cons by simp
    next
      case (Some k)
      from regex_exec_wordy [OF assms Some] obtain n where k: "k = Suc n" and
        f: "\<not> pw" "n \<le> length cs" "is_word_char c" "is_word_char (last (c # take n cs))"
           "\<not> word_at (drop n cs)"
        by (cases k) auto
      define m0 where "m0 = c # take n cs"
      define pw' where "pw' = is_word_char (last m0)"
      have m0: "m0 \<noteq> []" "hd m0 = c" "s = m0 @ drop n cs" "is_word_char (last m0)"
        using Cons f(4) by (simp_all add: m0_def)
      from less.prems Cons Some k have sc: "Matched m0 # scan A pw' (drop n cs) = xs @ Matched m # ys"
        by (simp add: m0_def pw'_def)
      show ?thesis
      proof (cases xs)
        case Nil
        with sc have m: "m = m0" and ys: "ys = scan A pw' (drop n cs)" by simp_all
        have "texts ys = drop n cs" unfolding ys by (rule texts_scan)
        then show ?thesis using Nil m m0 f by simp
      next
        case xc: (Cons x xs')
        with sc have x: "x = Matched m0" and r: "scan A pw' (drop n cs) = xs' @ Matched m # ys"
          by simp_all
        have "drop n cs = texts xs' @ m @ texts ys \<and> m \<noteq> [] \<and> is_word_char (hd m) \<and>
            is_word_char (last m) \<and> \<not> prev_word pw' (texts xs') \<and> \<not> word_at (texts ys)"
          using r Cons by (intro less.hyps) auto
        moreover have "prev_word pw (texts xs) = prev_word pw' (texts xs')"
          using xc x m0(1) prev_word_append [of m0 pw "texts xs'"] by (simp add: pw'_def)
        ultimately show ?thesis using xc x m0(3) by simp
      qed
    qed
  qed
qed

lemma runs_ci: "ci a w \<Longrightarrow> list_all2 ci (runs a) (runs w)"
proof (induction a arbitrary: w)
  case Nil
  then show ?case by simp
next
  case (Cons x a)
  then obtain y w' where w: "w = y # w'" by (cases w) auto
  with Cons.prems have c: "canonicalize x = canonicalize y" "ci a w'" by simp_all
  from Cons.IH [OF c(2)] have ih: "list_all2 ci (runs a) (runs w')" .
  from canon_word [OF c(1)] have cl: "is_word_char x = is_word_char y" .
  show ?case
  proof (cases "runs a")
    case Nil
    with ih have "runs w' = []" by simp
    with Nil w c(1) show ?thesis by simp
  next
    case (Cons t ts)
    with ih obtain u us where u: "runs w' = u # us" "ci t u" "list_all2 ci ts us"
      by (cases "runs w'") auto
    from ci_word_at [OF u(2)] have "word_at t = word_at u" .
    with Cons u w c(1) cl show ?thesis by simp
  qed
qed

lemma list_all2_tprefix: "list_all2 ci p t \<Longrightarrow> tprefix p t"
  by (induction p t rule: list_all2_induct) auto

lemma tprefix_length: "tprefix p t \<Longrightarrow> length p \<le> length t"
  by (induction p t rule: tprefix.induct) auto

lemma replace_regex_variant:
  assumes wf: "\<forall>b\<in>set A. wf_alt (runs b)"
    and same: "\<forall>b\<in>set A. length (runs b) = length (runs a)"
    and a: "a \<in> set A" "ci a w"
  shows "replace_regex A r w = r"
proof -
  from runs_ci [OF a(2)] have l2: "list_all2 ci (runs a) (runs w)" .
  then have pre: "tprefix (runs a) (runs w)" and len: "length (runs a) = length (runs w)"
    by (simp_all add: list_all2_tprefix list_all2_lengthD)
  from wf a(1) have "runs a \<noteq> []" by (auto simp: wf_alt_def)
  with len obtain t ts where ts: "runs w = t # ts" by (cases "runs w") auto
  from pre a(1) have "texec (map runs A) (runs w) \<noteq> None" by (auto simp: texec_None)
  then obtain b where b: "texec (map runs A) (runs w) = Some b" by blast
  from texec_Some [OF b] same have "length b = length (runs a)" by auto
  with len ts have "drop (length b - 1) ts = []" by simp
  with b ts have "trep (map runs A) (runs r) (runs w) = runs r" by simp
  with replace_regex_tokens [OF wf, of r w] show ?thesis by (simp add: concat_runs)
qed

lemma uniform_forms:
  "list_all (\<lambda>(A, R). \<forall>a\<in>set A. \<forall>b\<in>set A. length b = length a)
      (map (\<lambda>rl. (talts rl, trepl rl)) aggressivePatterns)"
  unfolding tok_forms by simp

lemma aggressive_uniform:
  assumes "rl \<in> set aggressivePatterns" "a \<in> set (pattern rl)"
  shows "\<forall>b\<in>set (pattern rl). length (runs b) = length (runs a)"
proof -
  have "(talts rl, trepl rl) \<in> set (map (\<lambda>rl. (talts rl, trepl rl)) aggressivePatterns)"
    using assms(1) by simp
  with uniform_forms have "\<forall>a\<in>set (talts rl). \<forall>b\<in>set (talts rl). length b = length a"
    unfolding list_all_iff by blast
  then have "\<forall>b\<in>set (talts rl). length b = length (runs a)"
    using assms(2) unfolding talts_def by (metis image_eqI list.set_map)
  then show ?thesis unfolding talts_def by (metis image_eqI list.set_map)
qed

lemma aggressive_variant:
  assumes "rl \<in> set aggressivePatterns" "a \<in> set (pattern rl)" "ci a w"
  shows "replace_regex (pattern rl) (replacement rl) w = replacement rl"
proof -
  from wf_aggressive assms(1) have "\<forall>b\<in>set (pattern rl). wf_alt (runs b)"
    by (simp add: wf_rule_def)
  moreover note aggressive_uniform [OF assms(1,2)] assms(2,3)
  ultimately show ?thesis by (rule replace_regex_variant)
qed

lemma stable_forms:
  "list_all (\<lambda>(A, R). list_all (\<lambda>(B, S). nomatch A S)
      (map (\<lambda>rl. (talts rl, trepl rl)) aggressivePatterns))
      (map (\<lambda>rl. (talts rl, trepl rl)) aggressivePatterns)"
  unfolding tok_forms by (simp add: js_def canonicalize_def)

lemma replacement_nomatch:
  assumes "rl \<in> set aggressivePatterns" "k \<in> set aggressivePatterns"
  shows "nomatch (talts rl) (trepl k)"
proof -
  have "(talts rl, trepl rl) \<in> set (map (\<lambda>rl. (talts rl, trepl rl)) aggressivePatterns)"
    "(talts k, trepl k) \<in> set (map (\<lambda>rl. (talts rl, trepl rl)) aggressivePatterns)"
    using assms by simp_all
  with stable_forms show ?thesis unfolding list_all_iff by blast
qed

lemma soften_replacement:
  assumes "k \<in> set aggressivePatterns"
  shows "soften (replacement k) = replacement k"
proof -
  have "apply_rules aggressivePatterns (concat (trepl k)) = concat (tapply aggressivePatterns (trepl k))"
    unfolding trepl_def using wf_aggressive alt_from_runs by (rule apply_rules_tokens)
  moreover have "tapply aggressivePatterns (trepl k) = trepl k"
    using replacement_nomatch [OF _ assms] by (intro tapply_id) simp
  ultimately show ?thesis by (simp add: soften_def trepl_def concat_runs)
qed

section \<open>The softening phase is idempotent\<close>

text \<open>
  C3. The softening phase is idempotent: applying the ordered rule list to its own output
  gives the same string, for every input; and no replacement text is changed by the
  softening phase, so none is itself a rewrite target.
\<close>

theorem soften_idempotent:
  "soften (soften t) = soften t \<and>
   (\<forall>rl\<in>set aggressivePatterns. soften (replacement rl) = replacement rl)"
  using soften_soften soften_replacement by simp

theorem soften_idempotent_witness:
  "soften (soften (js ''You are stupid'')) = soften (js ''You are stupid'') \<and>
   soften (js ''unclear'') = js ''unclear''"
proof -
  have "\<lparr>pattern = [js ''stupid'', js ''dumb'', js ''idiotic'', js ''moronic''],
      replacement = js ''unclear''\<rparr> \<in> set aggressivePatterns"
    by (simp add: aggressivePatterns_def)
  with soften_idempotent [of "js ''You are stupid''"] show ?thesis by fastforce
qed

section \<open>Evaluating the softening phase and the frames\<close>

lemma tapply_forms:
  "tapply rules ts = fold (\<lambda>(A, R). trep A R) (map (\<lambda>rl. (talts rl, trepl rl)) rules) ts"
  by (induction rules arbitrary: ts) (simp_all add: tapply_def)

lemma soften_tokens:
  "soften s = concat (fold (\<lambda>(A, R). trep A R) (map (\<lambda>rl. (talts rl, trepl rl)) aggressivePatterns) (runs s))"
  using apply_rules_tokens [OF wf_aggressive alt_from_runs, of s]
  by (simp add: soften_def concat_runs tapply_forms)

lemmas soften_eval = soften_tokens tok_forms js_def is_word_char_def canonicalize_def

lemma soften_idea: "soften (js ''The idea is not stupid'') = js ''The idea is not unclear''"
  by (simp add: soften_eval)

lemma soften_stupidity: "soften (js ''stupidity'') = js ''stupidity''"
  by (simp add: soften_eval)

lemma soften_upper: "soften (js ''STUPID'') = js ''unclear''"
  by (simp add: soften_eval)

lemma soften_capital: "soften (js ''Stupid'') = js ''unclear''"
  by (simp add: soften_eval)

lemma soften_useless:
  "soften (js ''This is useless and a waste of time'') =
     js ''This is not quite working and a could be optimized''"
  by (simp add: soften_eval)

lemma soften_blank: "soften (js ''   '') = js ''   ''"
  by (simp add: soften_eval)

lemma capitalize_charAt:
  "toUpperCase rt (charAt s 0) @ slice s 1 = capitalize rt s"
  "toUpperCase rt (charAt s 0) @ slice s (Suc 0) = capitalize rt s"
  by (cases s; simp add: toUpperCase_def charAt_def slice_def capitalize_def)+

lemma tones_cases:
  "tone \<in> set tones \<longleftrightarrow>
     tone = js ''professional'' \<or> tone = js ''calm'' \<or> tone = js ''friendly'' \<or> tone = js ''short''"
  by (auto simp: tones_def)

lemma tones_distinct:
  "js ''professional'' \<noteq> js ''calm''" "js ''professional'' \<noteq> js ''friendly''"
  "js ''professional'' \<noteq> js ''short''" "js ''calm'' \<noteq> js ''friendly''"
  "js ''calm'' \<noteq> js ''short''" "js ''friendly'' \<noteq> js ''short''"
  "js ''professional'' \<noteq> []" "js ''calm'' \<noteq> []" "js ''friendly'' \<noteq> []" "js ''short'' \<noteq> []"
  by (simp_all add: js_def)

lemma applyRewriteRules_framed:
  assumes "tone \<in> set tones"
  shows "applyRewriteRules rt text tone = framed rt tone (soften text)"
  using assms tones_distinct
  by (auto simp: tones_cases applyRewriteRules_def framed_def wrapProfessional_def wrapCalm_def
      wrapFriendly_def wrapShort_def tone_prefix_def tone_suffix_def capitalize_charAt Let_def)

lemma keys_distinct: "js ''text'' \<noteq> js ''tone''" "js ''tone'' \<noteq> js ''text''"
  by (simp_all add: js_def)

lemma rewrite_valid:
  assumes "\<not> nullish b" "get_prop b (js ''text'') = Str t" "t \<noteq> []"
    and "get_prop b (js ''tone'') = Str tone" "tone \<in> set tones"
  shows "rewrite rt b =
    \<lparr>status = 200,
     body = Obj [(js ''rewritten'', Str (applyRewriteRules rt t tone)), (js ''tone'', Str tone)]\<rparr>"
proof -
  from assms(5) have "tone \<noteq> []" using tones_distinct by (auto simp: tones_cases)
  with assms show ?thesis by (simp add: rewrite_def rewrite_try_def Let_def)
qed

section \<open>Whole-word matching\<close>

lemma aggressive_wordy:
  assumes "rl \<in> set aggressivePatterns"
  shows "wordy (pattern rl)"
proof -
  have "list_all (\<lambda>rl. wordy (pattern rl)) aggressivePatterns"
    by (simp add: aggressivePatterns_def wordy_def js_def is_word_char_def)
  with assms show ?thesis by (simp add: list_all_iff)
qed

lemma whole_words_scan:
  assumes "rl \<in> set aggressivePatterns" "scan (pattern rl) False s = xs @ Matched m # ys"
  shows "s = texts xs @ m @ texts ys \<and> whole_words (texts xs) m (texts ys)"
  using scan_Matched [OF aggressive_wordy [OF assms(1)] assms(2)] by (simp add: whole_words_def)

lemma first_rule: "\<lparr>pattern = [js ''stupid'', js ''dumb'', js ''idiotic'', js ''moronic''],
    replacement = js ''unclear''\<rparr> \<in> set aggressivePatterns"
  by (simp add: aggressivePatterns_def)

lemma scan_a_stupid:
  "scan [js ''stupid'', js ''dumb'', js ''idiotic'', js ''moronic''] False (js ''a stupid'') =
     [Kept 97, Kept 32] @ Matched (js ''stupid'') # []"
  by (simp add: js_def match_alt_def boundary_def is_word_char_def canonicalize_def)

lemma runs_word:
  assumes "w \<noteq> []" "\<forall>c\<in>set w. is_word_char c"
  shows "runs w = [w]"
  using runs_token [of w True "[]"] assms by simp

lemma soften_other_word:
  assumes "w \<noteq> []" "\<forall>c\<in>set w. is_word_char c"
    and "\<forall>rl\<in>set aggressivePatterns. \<forall>a\<in>set (pattern rl). map canonicalize a \<noteq> map canonicalize w"
  shows "soften w = w"
proof -
  have "nomatch (talts rl) [w]" if rl: "rl \<in> set aggressivePatterns" for rl
  proof -
    have "\<not> tprefix ta [w]" if ta: "ta \<in> set (talts rl)" for ta
    proof
      assume p: "tprefix ta [w]"
      from ta obtain a where a: "a \<in> set (pattern rl)" "ta = runs a" by (auto simp: talts_def)
      from wf_aggressive rl a(1) have "wf_alt (runs a)" by (simp add: wf_rule_def)
      then have "odd (length (runs a))" by (simp add: wf_alt_def)
      then have "runs a \<noteq> []" by (cases "runs a") simp_all
      then have "ta \<noteq> []" using a(2) by simp
      with p obtain q where q: "ta = [q]" "ci q w"
        by (cases ta; cases "tl ta") auto
      from q(1) a(2) have "a = q" using concat_runs [of a] by simp
      with q(2) assms(3) rl a(1) show False by (auto simp: ci_def)
    qed
    then show ?thesis by (simp add: texec_None)
  qed
  then have "tapply aggressivePatterns [w] = [w]" by (intro tapply_id) simp
  moreover have "apply_rules aggressivePatterns (concat [w]) = concat (tapply aggressivePatterns [w])"
    using wf_aggressive by (rule apply_rules_tokens [where b = True]) (use assms in simp)
  ultimately show ?thesis by (simp add: soften_def)
qed

lemma stupidity_other:
  "list_all (\<lambda>rl. list_all (\<lambda>a. map canonicalize a \<noteq> map canonicalize (js ''stupidity'')) (pattern rl))
     aggressivePatterns"
  by (simp add: aggressivePatterns_def js_def canonicalize_def)

text \<open>
  C6. Matching is whole-word, a word character being what \<open>\<bslash>b\<close> takes for one: an ASCII
  letter, a digit or an underscore. Whatever a rule of the list matches in whatever
  input, the matched piece begins and ends with a word character and has no word
  character next to it on either side, so it is never a part of a longer word; the
  pieces a replacement replaces are exactly the matched ones. A single word that is not
  itself an alternative of a rule, up to case, is left as it is by the softening phase,
  whatever it contains. Softening "The idea is not stupid" gives "The idea is not
  unclear", and softening "stupidity" leaves it as it is.
\<close>

theorem whole_word_matching:
  "(\<forall>rl\<in>set aggressivePatterns. \<forall>s xs m ys.
      scan (pattern rl) False s = xs @ Matched m # ys \<longrightarrow>
      s = texts xs @ m @ texts ys \<and> whole_words (texts xs) m (texts ys)) \<and>
   (\<forall>w. w \<noteq> [] \<and> (\<forall>c\<in>set w. is_word_char c) \<and>
      (\<forall>rl\<in>set aggressivePatterns. \<forall>a\<in>set (pattern rl).
         map canonicalize a \<noteq> map canonicalize w) \<longrightarrow>
      soften w = w) \<and>
   soften (js ''The idea is not stupid'') = js ''The idea is not unclear'' \<and>
   soften (js ''stupidity'') = js ''stupidity''"
  using whole_words_scan soften_other_word soften_idea soften_stupidity by blast

theorem whole_word_matching_witness:
  "scan [js ''stupid'', js ''dumb'', js ''idiotic'', js ''moronic''] False (js ''a stupid'') =
     [Kept 97, Kept 32] @ Matched (js ''stupid'') # [] \<and>
   js ''a stupid'' = texts [Kept 97, Kept 32] @ js ''stupid'' @ texts [] \<and>
   whole_words (texts [Kept 97, Kept 32]) (js ''stupid'') (texts []) \<and>
   list_all is_word_char (js ''stupidity'') \<and>
   soften (js ''stupidity'') = js ''stupidity''"
proof -
  have p: "pattern \<lparr>pattern = [js ''stupid'', js ''dumb'', js ''idiotic'', js ''moronic''],
      replacement = js ''unclear''\<rparr> = [js ''stupid'', js ''dumb'', js ''idiotic'', js ''moronic'']"
    by simp
  note h = whole_word_matching [THEN conjunct1, rule_format, OF first_rule, unfolded p]
  have w: "list_all is_word_char (js ''stupidity'')" by (simp add: js_def is_word_char_def)
  have "js ''stupidity'' \<noteq> [] \<and> (\<forall>c\<in>set (js ''stupidity''). is_word_char c) \<and>
      (\<forall>rl\<in>set aggressivePatterns. \<forall>a\<in>set (pattern rl).
         map canonicalize a \<noteq> map canonicalize (js ''stupidity''))"
    using w stupidity_other by (simp add: list_all_iff) (simp add: js_def)
  from whole_word_matching [THEN conjunct2, THEN conjunct1, THEN spec, THEN mp, OF this]
  have "soften (js ''stupidity'') = js ''stupidity''" .
  with h [OF scan_a_stupid] scan_a_stupid w show ?thesis by blast
qed

section \<open>The casing of matched words\<close>

lemma regex_exec_variant:
  assumes "regex_exec A pw s = Some k"
  shows "k \<le> length s \<and> (\<exists>a\<in>set A. ci a (take k s))"
proof -
  from regex_exec_Some [OF assms] obtain a where a: "a \<in> set A" "k = length a" "match_alt pw s a"
    by blast
  from a(3) obtain pw' rest where "eat a pw s = Some (pw', rest)"
    by (auto simp: match_alt_def split: option.splits)
  from eat_Some [OF this] a(1,2) show ?thesis by auto
qed

lemma scan_Matched_variant:
  assumes "wordy A"
  shows "scan A pw s = xs @ Matched m # ys \<Longrightarrow> \<exists>a\<in>set A. ci a m"
proof (induction "length s" arbitrary: s pw xs rule: less_induct)
  case less
  show ?case
  proof (cases s)
    case Nil
    have "regex_exec A pw [] = None"
    proof (cases "regex_exec A pw []")
      case None
      then show ?thesis .
    next
      case (Some k)
      from regex_exec_wordy [OF assms Some] show ?thesis by simp
    qed
    with less.prems Nil show ?thesis by simp
  next
    case (Cons c cs)
    show ?thesis
    proof (cases "regex_exec A pw (c # cs)")
      case None
      with less.prems Cons have "Kept c # scan A (is_word_char c) cs = xs @ Matched m # ys" by simp
      then obtain xs' where "scan A (is_word_char c) cs = xs' @ Matched m # ys"
        by (cases xs) auto
      then show ?thesis using Cons by (intro less.hyps) auto
    next
      case (Some k)
      from regex_exec_wordy [OF assms Some] obtain n where k: "k = Suc n" by (cases k) auto
      from regex_exec_variant [OF Some] k have v: "\<exists>a\<in>set A. ci a (c # take n cs)" by simp
      define m0 where "m0 = c # take n cs"
      define pw' where "pw' = is_word_char (last m0)"
      from less.prems Cons Some k have sc: "Matched m0 # scan A pw' (drop n cs) = xs @ Matched m # ys"
        by (simp add: m0_def pw'_def)
      show ?thesis
      proof (cases xs)
        case Nil
        with sc have "m = m0" by simp
        with v show ?thesis by (simp add: m0_def)
      next
        case xc: (Cons x xs')
        with sc have "scan A pw' (drop n cs) = xs' @ Matched m # ys" by simp
        then show ?thesis using Cons by (intro less.hyps) auto
      qed
    qed
  qed
qed

lemma matched_variant:
  assumes "rl \<in> set aggressivePatterns" "scan (pattern rl) False s = xs @ Matched m # ys"
  shows "\<exists>a\<in>set (pattern rl). map canonicalize a = map canonicalize m"
  using scan_Matched_variant [OF aggressive_wordy [OF assms(1)] assms(2)] by (simp add: ci_def)

lemma scan_are_stupid:
  "scan [js ''stupid'', js ''dumb'', js ''idiotic'', js ''moronic''] False (js ''so STUPID!'') =
     [Kept 115, Kept 111, Kept 32] @ Matched (js ''STUPID'') # [Kept 33]"
  by (simp add: js_def match_alt_def boundary_def is_word_char_def canonicalize_def)

text \<open>
  C9. A matched word is replaced by the rule's replacement exactly as it is written,
  whatever the casing of the word. In any input, every piece a rule matches equals one of
  the rule's alternatives up to case and is rendered as the rule's replacement; and every
  string that equals an alternative of a rule up to case is rewritten by that rule to the
  rule's replacement. The softening phase rewrites both "STUPID" and "Stupid" to
  "unclear".
\<close>

theorem replacement_ignores_casing:
  "(\<forall>rl\<in>set aggressivePatterns. \<forall>s xs m ys.
      scan (pattern rl) False s = xs @ Matched m # ys \<longrightarrow>
      (\<exists>a\<in>set (pattern rl). map canonicalize a = map canonicalize m) \<and>
      render (replacement rl) (Matched m) = replacement rl) \<and>
   (\<forall>rl\<in>set aggressivePatterns. \<forall>a\<in>set (pattern rl). \<forall>w.
      map canonicalize a = map canonicalize w \<longrightarrow>
      replace_regex (pattern rl) (replacement rl) w = replacement rl) \<and>
   soften (js ''STUPID'') = js ''unclear'' \<and>
   soften (js ''Stupid'') = js ''unclear''"
proof (intro conjI ballI allI impI)
  fix rl s xs m ys
  assume "rl \<in> set aggressivePatterns" "scan (pattern rl) False s = xs @ Matched m # ys"
  then show "\<exists>a\<in>set (pattern rl). map canonicalize a = map canonicalize m"
    by (rule matched_variant)
next
  fix rl a w
  assume h: "rl \<in> set aggressivePatterns" "a \<in> set (pattern rl)"
    "map canonicalize a = map canonicalize w"
  then have "ci a w" by (simp add: ci_def)
  with h(1,2) show "replace_regex (pattern rl) (replacement rl) w = replacement rl"
    by (rule aggressive_variant)
qed (simp_all add: soften_upper soften_capital)

theorem replacement_ignores_casing_witness:
  "scan [js ''stupid'', js ''dumb'', js ''idiotic'', js ''moronic''] False (js ''so STUPID!'') =
     [Kept 115, Kept 111, Kept 32] @ Matched (js ''STUPID'') # [Kept 33] \<and>
   render (js ''unclear'') (Matched (js ''STUPID'')) = js ''unclear'' \<and>
   map canonicalize (js ''stupid'') = map canonicalize (js ''StUpId'') \<and>
   replace_regex [js ''stupid'', js ''dumb'', js ''idiotic'', js ''moronic''] (js ''unclear'')
     (js ''StUpId'') = js ''unclear''"
proof -
  have p: "pattern \<lparr>pattern = [js ''stupid'', js ''dumb'', js ''idiotic'', js ''moronic''],
      replacement = js ''unclear''\<rparr> = [js ''stupid'', js ''dumb'', js ''idiotic'', js ''moronic'']"
    "replacement \<lparr>pattern = [js ''stupid'', js ''dumb'', js ''idiotic'', js ''moronic''],
      replacement = js ''unclear''\<rparr> = js ''unclear''"
    by simp_all
  have c: "map canonicalize (js ''stupid'') = map canonicalize (js ''StUpId'')"
    by (simp add: js_def canonicalize_def)
  have a: "js ''stupid'' \<in> set [js ''stupid'', js ''dumb'', js ''idiotic'', js ''moronic'']"
    by simp
  note h1 = replacement_ignores_casing [THEN conjunct1, THEN bspec, OF first_rule, unfolded p,
      THEN spec, THEN spec, THEN spec, THEN spec, THEN mp, OF scan_are_stupid, THEN conjunct2]
  note h2 = replacement_ignores_casing [THEN conjunct2, THEN conjunct1, THEN bspec, OF first_rule,
      unfolded p, THEN bspec, OF a, THEN spec, THEN mp, OF c]
  from scan_are_stupid h1 c h2 show ?thesis by (intro conjI)
qed

section \<open>The frame of each tone\<close>

text \<open>
  C4. For every valid request (the text a non-empty string, the tone one of the four),
  the answer is a success whose rewritten text is the fixed prefix of the tone, then the
  softened text after whitespace collapse and trim with its first unit in upper case,
  then the fixed suffix of the tone; for the tone \<open>short\<close> it is "Quick note: ", the
  trimmed first sentence of that text without capitalization, and " Let's discuss.".
\<close>

theorem rewrite_framing:
  assumes "\<not> nullish b" "get_prop b (js ''text'') = Str t" "t \<noteq> []"
    and "get_prop b (js ''tone'') = Str tone" "tone \<in> set tones"
  shows "rewrite rt b =
    \<lparr>status = 200,
     body = Obj [(js ''rewritten'', Str (framed rt tone (soften t))), (js ''tone'', Str tone)]\<rparr>"
  by (simp add: rewrite_valid [OF assms] applyRewriteRules_framed [OF assms(5)])

lemma soften_listen:
  "soften (js ''you always fail  to listen'') = js ''you sometimes didn'' @ [39] @ js ''t work out  to listen''"
  by (simp add: soften_eval)

lemma framed_listen:
  "framed (stub_runtime Null) (js ''professional'')
      (js ''you sometimes didn'' @ [39] @ js ''t work out  to listen'') =
    js ''I wanted to share some feedback regarding this matter. You sometimes didn'' @ [39] @
    js ''t work out to listen I believe addressing this could lead to better outcomes. Please let me know your thoughts.''"
  by (simp add: framed_def tone_prefix_def tone_suffix_def capitalize_def toUpperCase_unit_def
      trim_def is_space_def js_def)

theorem rewrite_framing_witness:
  "rewrite (stub_runtime Null)
     (Obj [(js ''text'', Str (js ''you always fail  to listen'')),
           (js ''tone'', Str (js ''professional''))]) =
   \<lparr>status = 200,
    body = Obj [(js ''rewritten'',
      Str (js ''I wanted to share some feedback regarding this matter. You sometimes didn'' @ [39] @
           js ''t work out to listen I believe addressing this could lead to better outcomes. Please let me know your thoughts.'')),
      (js ''tone'', Str (js ''professional''))]\<rparr>"
proof -
  let ?b = "Obj [(js ''text'', Str (js ''you always fail  to listen'')),
                 (js ''tone'', Str (js ''professional''))]"
  have 1: "\<not> nullish ?b" by simp
  have 2: "get_prop ?b (js ''text'') = Str (js ''you always fail  to listen'')" by simp
  have 3: "js ''you always fail  to listen'' \<noteq> []" by (simp add: js_def)
  have 4: "get_prop ?b (js ''tone'') = Str (js ''professional'')" by (simp add: keys_distinct)
  have 5: "js ''professional'' \<in> set tones" by (simp add: tones_def)
  from rewrite_framing [OF 1 2 3 4 5, of "stub_runtime Null"] show ?thesis
    by (simp only: soften_listen framed_listen)
qed

section \<open>The rewrite operation is a function of text and tone\<close>

text \<open>
  C8. The answer of the rewrite operation is a function of the text and the tone alone:
  two requests that carry the same text and the same tone get the same answer, whatever
  else the requests carry, and the handler reads nothing but its request and the
  engine's case table.
\<close>

theorem rewrite_deterministic:
  assumes "\<not> nullish b1" "\<not> nullish b2"
    and "get_prop b1 (js ''text'') = get_prop b2 (js ''text'')"
    and "get_prop b1 (js ''tone'') = get_prop b2 (js ''tone'')"
    and "unicode_upper rt1 = unicode_upper rt2"
  shows "rewrite rt1 b1 = rewrite rt2 b2"
proof -
  have "toUpperCase_unit rt1 = toUpperCase_unit rt2"
    using assms(5) by (intro ext) (simp add: toUpperCase_unit_def)
  then have "toUpperCase rt1 = toUpperCase rt2"
    by (intro ext) (simp add: toUpperCase_def)
  then have "applyRewriteRules rt1 t tone = applyRewriteRules rt2 t tone" for t tone
    by (simp add: applyRewriteRules_def wrapProfessional_def wrapCalm_def wrapFriendly_def Let_def)
  with assms(1-4) show ?thesis by (simp add: rewrite_def rewrite_try_def Let_def)
qed

theorem rewrite_deterministic_witness:
  "rewrite (stub_runtime Null)
     (Obj [(js ''text'', Str (js ''hi'')), (js ''tone'', Str (js ''calm'')), (js ''id'', Null)]) =
   rewrite (stub_runtime (Bool True))
     (Obj [(js ''tone'', Str (js ''calm'')), (js ''text'', Str (js ''hi''))])"
proof -
  let ?b1 = "Obj [(js ''text'', Str (js ''hi'')), (js ''tone'', Str (js ''calm'')), (js ''id'', Null)]"
  let ?b2 = "Obj [(js ''tone'', Str (js ''calm'')), (js ''text'', Str (js ''hi''))]"
  have 1: "\<not> nullish ?b1" and 2: "\<not> nullish ?b2" by simp_all
  have 3: "get_prop ?b1 (js ''text'') = get_prop ?b2 (js ''text'')" by (simp add: keys_distinct)
  have 4: "get_prop ?b1 (js ''tone'') = get_prop ?b2 (js ''tone'')" by (simp add: keys_distinct)
  have 5: "unicode_upper (stub_runtime Null) = unicode_upper (stub_runtime (Bool True))"
    by (simp add: stub_runtime_def)
  from 1 2 3 4 5 show ?thesis by (rule rewrite_deterministic)
qed

section \<open>The short tone\<close>

lemma firstSentence_no_terminator:
  assumes "\<forall>c\<in>set s. \<not> is_terminator c"
  shows "firstSentence s = take 100 s"
proof -
  from assms have "dropWhile (\<lambda>c. \<not> is_terminator c) s = []" by simp
  then show ?thesis by (simp add: firstSentence_def match_first_sentence_def substring_def)
qed

lemma short_framed:
  "framed rt (js ''short'') softened =
     js ''Quick note: '' @ trim (firstSentence (trim (collapse_spaces softened))) @
     js '' Let'' @ [39] @ js ''s discuss.''"
  using tones_distinct by (simp add: framed_def tone_prefix_def tone_suffix_def Let_def)

lemma short_in_tones: "js ''short'' \<in> set tones"
  by (simp add: tones_def)

lemma core_useless:
  "trim (firstSentence (trim (collapse_spaces
      (js ''This is not quite working and a could be optimized'')))) =
    js ''This is not quite working and a could be optimized''"
  by (simp add: firstSentence_def match_first_sentence_def substring_def is_terminator_def
      trim_def is_space_def js_def)

lemma soften_hello: "soften (js ''hello world'') = js ''hello world''"
  by (simp add: soften_eval)

lemma core_hello: "trim (collapse_spaces (js ''hello world'')) = js ''hello world''"
  by (simp add: trim_def is_space_def js_def)

text \<open>
  C5. The request with the text "This is useless and a waste of time" and the tone
  \<open>short\<close> is answered with exactly "Quick note: This is not quite working and a could
  be optimized Let's discuss."; and for the tone \<open>short\<close>, whenever the softened text
  after whitespace collapse and trim holds none of \<open>.\<close>, \<open>!\<close>, \<open>?\<close>, the extracted first
  sentence is its first 100 code units.
\<close>

theorem short_tone_first_hundred:
  "rewrite rt
     (Obj [(js ''text'', Str (js ''This is useless and a waste of time'')),
           (js ''tone'', Str (js ''short''))]) =
   \<lparr>status = 200,
    body = Obj [(js ''rewritten'',
      Str (js ''Quick note: This is not quite working and a could be optimized Let'' @ [39] @
           js ''s discuss.'')),
      (js ''tone'', Str (js ''short''))]\<rparr> \<and>
   (\<forall>text. (\<forall>c\<in>set (trim (collapse_spaces (soften text))). \<not> is_terminator c) \<longrightarrow>
      firstSentence (trim (collapse_spaces (soften text))) =
        take 100 (trim (collapse_spaces (soften text))) \<and>
      applyRewriteRules rt text (js ''short'') =
        js ''Quick note: '' @ trim (take 100 (trim (collapse_spaces (soften text)))) @
        js '' Let'' @ [39] @ js ''s discuss.'')"
proof (intro conjI allI impI)
  let ?b = "Obj [(js ''text'', Str (js ''This is useless and a waste of time'')),
                 (js ''tone'', Str (js ''short''))]"
  have 1: "\<not> nullish ?b" by simp
  have 2: "get_prop ?b (js ''text'') = Str (js ''This is useless and a waste of time'')" by simp
  have 3: "js ''This is useless and a waste of time'' \<noteq> []" by (simp add: js_def)
  have 4: "get_prop ?b (js ''tone'') = Str (js ''short'')" by (simp add: keys_distinct)
  have "framed rt (js ''short'') (soften (js ''This is useless and a waste of time'')) =
      js ''Quick note: '' @ js ''This is not quite working and a could be optimized'' @
      js '' Let'' @ [39] @ js ''s discuss.''"
    by (simp only: short_framed soften_useless core_useless)
  also have "\<dots> = js ''Quick note: This is not quite working and a could be optimized Let'' @ [39] @
      js ''s discuss.''"
    by (simp add: js_def)
  finally show "rewrite rt ?b =
      \<lparr>status = 200,
       body = Obj [(js ''rewritten'',
         Str (js ''Quick note: This is not quite working and a could be optimized Let'' @ [39] @
              js ''s discuss.'')),
         (js ''tone'', Str (js ''short''))]\<rparr>"
    by (simp add: rewrite_valid [OF 1 2 3 4 short_in_tones]
        applyRewriteRules_framed [OF short_in_tones])
next
  fix t
  assume a: "\<forall>c\<in>set (trim (collapse_spaces (soften t))). \<not> is_terminator c"
  then show f: "firstSentence (trim (collapse_spaces (soften t))) =
      take 100 (trim (collapse_spaces (soften t)))"
    by (rule firstSentence_no_terminator)
  show "applyRewriteRules rt t (js ''short'') =
      js ''Quick note: '' @ trim (take 100 (trim (collapse_spaces (soften t)))) @
      js '' Let'' @ [39] @ js ''s discuss.''"
    by (simp only: applyRewriteRules_framed [OF short_in_tones] short_framed f)
qed

theorem short_tone_first_hundred_witness:
  "list_all (\<lambda>c. \<not> is_terminator c) (trim (collapse_spaces (soften (js ''hello world'')))) \<and>
   applyRewriteRules (stub_runtime Null) (js ''hello world'') (js ''short'') =
     js ''Quick note: hello world Let'' @ [39] @ js ''s discuss.''"
proof -
  have a: "\<forall>c\<in>set (trim (collapse_spaces (soften (js ''hello world'')))). \<not> is_terminator c"
    by (simp add: soften_hello core_hello) (simp add: js_def is_terminator_def)
  note h = short_tone_first_hundred [THEN conjunct2, THEN spec, THEN mp, OF a, THEN conjunct2,
      of "stub_runtime Null"]
  have "js ''Quick note: '' @ trim (take 100 (js ''hello world'')) @ js '' Let'' @ [39] @ js ''s discuss.'' =
      js ''Quick note: hello world Let'' @ [39] @ js ''s discuss.''"
    by (simp add: js_def trim_def is_space_def)
  with h a show ?thesis by (simp add: soften_hello core_hello list_all_iff)
qed

section \<open>Validation of the rewrite request\<close>

text \<open>
  C2 fails on the code for a text of whitespace only: the rewrite handler tests the text
  for emptiness without trimming it, unlike the moderation handler, and answers the
  request below with a success whose rewritten text is the bare frame.
\<close>

theorem rewrite_blank_text_accepted:
  "rewrite rt
     (Obj [(js ''text'', Str (js ''   '')), (js ''tone'', Str (js ''professional''))]) =
   \<lparr>status = 200,
    body = Obj [(js ''rewritten'',
      Str (js ''I wanted to share some feedback regarding this matter. '' @
           js '' I believe addressing this could lead to better outcomes. Please let me know your thoughts.'')),
      (js ''tone'', Str (js ''professional''))]\<rparr>"
proof -
  let ?b = "Obj [(js ''text'', Str (js ''   '')), (js ''tone'', Str (js ''professional''))]"
  have 1: "\<not> nullish ?b" by simp
  have 2: "get_prop ?b (js ''text'') = Str (js ''   '')" by simp
  have 3: "js ''   '' \<noteq> []" by (simp add: js_def)
  have 4: "get_prop ?b (js ''tone'') = Str (js ''professional'')" by (simp add: keys_distinct)
  have 5: "js ''professional'' \<in> set tones" by (simp add: tones_def)
  have c: "trim (collapse_spaces (js ''   '')) = []"
    by (simp add: trim_def is_space_def js_def)
  have "framed rt (js ''professional'') (soften (js ''   '')) =
      js ''I wanted to share some feedback regarding this matter. '' @
      js '' I believe addressing this could lead to better outcomes. Please let me know your thoughts.''"
    using tones_distinct
    by (simp add: soften_blank framed_def c tone_prefix_def tone_suffix_def capitalize_def)
  then show ?thesis
    by (simp add: rewrite_valid [OF 1 2 3 4 5] applyRewriteRules_framed [OF 5])
qed

section \<open>The moderation handler\<close>

lemma floor_add_half: "\<lfloor>(of_int k :: rat) + 1 / 2\<rfloor> = k"
  by linarith

lemma Math_round_floor: "Math_round (Fin p q) = integral \<lfloor>value_of p q + 1 / 2\<rfloor>"
proof (cases "0 \<le> q")
  case True
  then have v: "value_of p q = of_int (p * 2 ^ nat q)"
    by (simp add: value_of_def power_int_def)
  have "\<lfloor>value_of p q + 1 / 2\<rfloor> = p * 2 ^ nat q"
    by (simp only: v floor_add_half)
  then show ?thesis using True by simp
next
  case False
  define n where "n = nat (- q)"
  from False have n: "0 < n" "nat (- q - 1) = n - 1" by (simp_all add: n_def)
  have "value_of p q = of_int p / 2 ^ n"
    using False by (simp add: value_of_def power_int_def n_def field_simps)
  also have "\<dots> + 1 / 2 = (of_int p + 2 ^ (n - 1)) / 2 ^ n"
  proof -
    from n(1) obtain k where k: "n = Suc k" by (cases n) auto
    show ?thesis unfolding k by (simp add: field_simps)
  qed
  also have "\<dots> = of_int (p + 2 ^ (n - 1)) / of_int (2 ^ n)" by simp
  finally have "\<lfloor>value_of p q + 1 / 2\<rfloor> = (p + 2 ^ (n - 1)) div 2 ^ n"
    by (simp only: floor_divide_of_int_eq)
  then show ?thesis using False n by (simp add: n_def)
qed

lemma String_includes_iff: "String_includes s sub \<longleftrightarrow> (\<exists>pre post. s = pre @ sub @ post)"
proof
  show "String_includes s sub \<Longrightarrow> \<exists>pre post. s = pre @ sub @ post"
  proof (induction s)
    case Nil
    then show ?case by simp
  next
    case (Cons c cs)
    show ?case
    proof (cases "take (length sub) (c # cs) = sub")
      case True
      then have "c # cs = [] @ sub @ drop (length sub) (c # cs)"
        by (metis append_Nil append_take_drop_id)
      then show ?thesis by blast
    next
      case False
      with Cons obtain pre post where "cs = pre @ sub @ post" by auto
      then have "c # cs = (c # pre) @ sub @ post" by simp
      then show ?thesis by blast
    qed
  qed
next
  assume "\<exists>pre post. s = pre @ sub @ post"
  then obtain pre post where s: "s = pre @ sub @ post" by blast
  show "String_includes s sub" unfolding s
  proof (induction pre)
    case Nil
    show ?case
    proof (cases "sub @ post")
      case Nil
      then show ?thesis by simp
    next
      case (Cons a l)
      have "take (length sub) (sub @ post) = sub" by simp
      then show ?thesis by (simp only: append_Nil Cons String_includes.simps) simp
    qed
  next
    case (Cons x pre)
    then show ?case by simp
  qed
qed

lemma trim_Nil [simp]: "trim [] = []"
  by (simp add: trim_def)

lemma moderate_try_answered:
  assumes "answered rt up tk b t result payload"
  shows "moderate_try rt up (Some tk) b =
    (if nullish payload then Inl (type_error rt payload (js ''max_value''))
     else Inr \<lparr>status = 200,
       body = Obj [(js ''scorePct'', Num (Math_round
                      (js_times (to_number rt (get_prop payload (js ''max_value''))) (integral 100)))),
                   (js ''score01'', get_prop payload (js ''max_value'')),
                   (js ''raw'', get_prop result (js ''data''))]\<rparr>)"
proof -
  from assms have t: "t \<noteq> []" by (auto simp: answered_def)
  with assms show ?thesis
    by (simp add: answered_def moderate_try_def Let_def)
qed

lemma moderate_answered:
  assumes "answered rt up tk b t result payload" "\<not> nullish payload"
  shows "moderate rt up (Some tk) b =
    \<lparr>status = 200,
     body = Obj [(js ''scorePct'', Num (Math_round
                    (js_times (to_number rt (get_prop payload (js ''max_value''))) (integral 100)))),
                 (js ''score01'', get_prop payload (js ''max_value'')),
                 (js ''raw'', get_prop result (js ''data''))]\<rparr>"
  using assms(2) by (simp add: moderate_def moderate_try_answered [OF assms(1)])

lemma data_key: "js ''data'' \<noteq> js ''1''" "js ''text'' \<noteq> js ''safer''" "js ''safer'' \<noteq> js ''text''"
  by (simp_all add: js_def)

lemma stub_answered:
  assumes "truthy d"
  shows "answered (stub_runtime payload) (stub_upstream (Inr (Obj [(js ''data'', Arr [Null, d])])))
    (js ''hf_token'') (Obj [(js ''text'', Str (js ''hello''))]) (js ''hello'')
    (Obj [(js ''data'', Arr [Null, d])]) payload"
proof -
  have "trim (js ''hello'') \<noteq> []" "length (js ''hello'') \<le> 5000" "js ''hf_token'' \<noteq> []"
    by (simp_all add: js_def trim_def is_space_def)
  with assms show ?thesis
    by (simp add: answered_def stub_runtime_def stub_upstream_def data_key)
qed

text \<open>
  C1 fails on the code: a payload that parses to an object without \<open>max_value\<close> is not
  rejected. The score is \<open>undefined\<close>, its product with 100 is NaN, and the handler
  answers with a success whose percentage is NaN.
\<close>

theorem moderate_missing_max_value_succeeds:
  "moderate (stub_runtime (Obj []))
     (stub_upstream (Inr (Obj [(js ''data'', Arr [Null, Str (js ''{}'')])])))
     (Some (js ''hf_token'')) (Obj [(js ''text'', Str (js ''hello''))]) =
   \<lparr>status = 200,
    body = Obj [(js ''scorePct'', Num NaN), (js ''score01'', Undefined),
                (js ''raw'', Arr [Null, Str (js ''{}'')])]\<rparr>"
proof -
  have "truthy (Str (js ''{}''))" by (simp add: js_def)
  from moderate_answered [OF stub_answered [OF this, of "Obj []"]] show ?thesis by simp
qed

lemma decimal_754: "decimal 754 1000 = Fin 1697857059518677 (- 51)"
  by code_simp

lemma times_754: "js_times (Fin 1697857059518677 (- 51)) (integral 100) = Fin 2652901655497933 (- 45)"
  by code_simp

lemma round_754: "Math_round (Fin 2652901655497933 (- 45)) = Fin 75 0"
  by code_simp

text \<open>
  C7. When the payload carries a finite score, the answer is a success whose percentage
  is the product of the score and 100 (a Number, so itself rounded to binary64) rounded to
  the nearest integer, a tie going up; the score 0.754 gives the percentage 75.
\<close>

theorem score_percentage_rounding:
  assumes "answered rt up tk b t result payload"
    and "get_prop payload (js ''max_value'') = Num (Fin m e)"
    and "js_times (Fin m e) (integral 100) = Fin p q"
  shows "moderate rt up (Some tk) b =
      \<lparr>status = 200,
       body = Obj [(js ''scorePct'', Num (integral \<lfloor>value_of p q + 1 / 2\<rfloor>)),
                   (js ''score01'', Num (Fin m e)),
                   (js ''raw'', get_prop result (js ''data''))]\<rparr> \<and>
    (Fin m e = decimal 754 1000 \<longrightarrow> integral \<lfloor>value_of p q + 1 / 2\<rfloor> = Fin 75 0)"
proof
  from assms(2) have "\<not> nullish payload" by (cases payload) simp_all
  from moderate_answered [OF assms(1) this]
  show "moderate rt up (Some tk) b =
      \<lparr>status = 200,
       body = Obj [(js ''scorePct'', Num (integral \<lfloor>value_of p q + 1 / 2\<rfloor>)),
                   (js ''score01'', Num (Fin m e)),
                   (js ''raw'', get_prop result (js ''data''))]\<rparr>"
    by (simp only: assms(2) to_number.simps assms(3) Math_round_floor)
next
  show "Fin m e = decimal 754 1000 \<longrightarrow> integral \<lfloor>value_of p q + 1 / 2\<rfloor> = Fin 75 0"
  proof
    assume "Fin m e = decimal 754 1000"
    with assms(3) have "Fin p q = Fin 2652901655497933 (- 45)"
      by (simp only: decimal_754 times_754)
    then have "Math_round (Fin p q) = Fin 75 0" by (simp only: round_754)
    then show "integral \<lfloor>value_of p q + 1 / 2\<rfloor> = Fin 75 0" by (simp only: Math_round_floor)
  qed
qed

theorem score_percentage_rounding_witness:
  "moderate (stub_runtime (Obj [(js ''max_value'', Num (decimal 754 1000))]))
     (stub_upstream (Inr (Obj [(js ''data'', Arr [Null, Str (js ''{}'')])])))
     (Some (js ''hf_token'')) (Obj [(js ''text'', Str (js ''hello''))]) =
   \<lparr>status = 200,
    body = Obj [(js ''scorePct'', Num (Fin 75 0)),
                (js ''score01'', Num (Fin 1697857059518677 (- 51))),
                (js ''raw'', Arr [Null, Str (js ''{}'')])]\<rparr>"
proof -
  let ?payload = "Obj [(js ''max_value'', Num (decimal 754 1000))]"
  have 0: "truthy (Str (js ''{}''))" by (simp add: js_def)
  have 2: "get_prop ?payload (js ''max_value'') = Num (Fin 1697857059518677 (- 51))"
    by (simp add: decimal_754)
  note h = score_percentage_rounding [OF stub_answered [OF 0, of ?payload] 2 times_754]
  from h [THEN conjunct1] h [THEN conjunct2] decimal_754 show ?thesis by simp
qed

lemma format_message_plain:
  "\<not> String_includes (js ''Unexpected API response format'') (js ''connect'')"
  by (simp add: js_def)

lemma parse_message_connect:
  "String_includes (js ''Unexpected token c in JSON: connect'') (js ''connect'')"
  by (simp add: js_def)

lemma moderate_catch_iff:
  "moderate_catch (Error msg) =
     (if \<exists>s pre post. msg = Some s \<and> s = pre @ js ''connect'' @ post
      then json_error 503 (js ''Unable to connect to moderation service. Please try again.'')
      else json_error 500 (js ''Failed to analyze message. Please try again.''))"
  by (cases msg) (simp_all add: moderate_catch_def String_includes_iff)

text \<open>
  C10. In the moderation handler an error is classified by a substring test on its
  message: whatever is thrown inside the handler, the answer is 503 when the message
  contains "connect" and the generic 500 otherwise, also when the message is absent. The
  missing payload, for which the handler itself throws, is answered with the generic 500.
\<close>

theorem error_classification:
  "(moderate_try rt up tok b = Inl (Error msg) \<longrightarrow>
      moderate rt up tok b =
        (if \<exists>s pre post. msg = Some s \<and> s = pre @ js ''connect'' @ post
         then json_error 503 (js ''Unable to connect to moderation service. Please try again.'')
         else json_error 500 (js ''Failed to analyze message. Please try again.''))) \<and>
   (\<not> nullish b \<and> get_prop b (js ''text'') = Str t \<and> trim t \<noteq> [] \<and> length t \<le> 5000 \<and>
    tk \<noteq> [] \<and> connect up tk = None \<and>
    predict up t (if get_prop b (js ''safer'') = Undefined then Num (decimal 1 10)
                  else get_prop b (js ''safer'')) = Inr result \<and>
    \<not> nullish result \<and> \<not> truthy (second (get_prop result (js ''data''))) \<longrightarrow>
      moderate rt up (Some tk) b =
        json_error 500 (js ''Failed to analyze message. Please try again.''))"
proof (intro conjI impI)
  assume "moderate_try rt up tok b = Inl (Error msg)"
  then show "moderate rt up tok b =
      (if \<exists>s pre post. msg = Some s \<and> s = pre @ js ''connect'' @ post
       then json_error 503 (js ''Unable to connect to moderation service. Please try again.'')
       else json_error 500 (js ''Failed to analyze message. Please try again.''))"
    by (simp only: moderate_def sum.case moderate_catch_iff)
next
  assume a: "\<not> nullish b \<and> get_prop b (js ''text'') = Str t \<and> trim t \<noteq> [] \<and> length t \<le> 5000 \<and>
    tk \<noteq> [] \<and> connect up tk = None \<and>
    predict up t (if get_prop b (js ''safer'') = Undefined then Num (decimal 1 10)
                  else get_prop b (js ''safer'')) = Inr result \<and>
    \<not> nullish result \<and> \<not> truthy (second (get_prop result (js ''data'')))"
  then have "t \<noteq> []" by auto
  with a have "moderate_try rt up (Some tk) b =
      Inl (Error (Some (js ''Unexpected API response format'')))"
    by (simp add: moderate_try_def Let_def)
  then show "moderate rt up (Some tk) b =
      json_error 500 (js ''Failed to analyze message. Please try again.'')"
    by (simp add: moderate_def moderate_catch_def format_message_plain)
qed

theorem error_classification_witness:
  "moderate
     ((stub_runtime Null)\<lparr>JSON_parse :=
        \<lambda>v. Inl (Error (Some (js ''Unexpected token c in JSON: connect'')))\<rparr>)
     (stub_upstream (Inr (Obj [(js ''data'', Arr [Null, Str (js ''connect'')])])))
     (Some (js ''hf_token'')) (Obj [(js ''text'', Str (js ''hello''))]) =
     json_error 503 (js ''Unable to connect to moderation service. Please try again.'') \<and>
   moderate (stub_runtime Null) (stub_upstream (Inr (Obj [])))
     (Some (js ''hf_token'')) (Obj [(js ''text'', Str (js ''hello''))]) =
     json_error 500 (js ''Failed to analyze message. Please try again.'')"
proof
  let ?rt = "(stub_runtime Null)\<lparr>JSON_parse :=
        \<lambda>v. Inl (Error (Some (js ''Unexpected token c in JSON: connect'')))\<rparr>"
  let ?up = "stub_upstream (Inr (Obj [(js ''data'', Arr [Null, Str (js ''connect'')])]))"
  let ?b = "Obj [(js ''text'', Str (js ''hello''))]"
  have f: "trim (js ''hello'') \<noteq> []" "length (js ''hello'') \<le> 5000" "js ''hf_token'' \<noteq> []"
    "js ''hello'' \<noteq> []" "js ''connect'' \<noteq> []"
    by (simp_all add: js_def trim_def is_space_def)
  have t: "moderate_try ?rt ?up (Some (js ''hf_token'')) ?b =
      Inl (Error (Some (js ''Unexpected token c in JSON: connect'')))"
    using f by (simp add: moderate_try_def stub_runtime_def stub_upstream_def data_key Let_def)
  from parse_message_connect
  have e: "\<exists>s pre post. Some (js ''Unexpected token c in JSON: connect'') = Some s \<and>
      s = pre @ js ''connect'' @ post"
    by (simp add: String_includes_iff)
  from error_classification [THEN conjunct1, THEN mp, OF t] e
  show "moderate ?rt ?up (Some (js ''hf_token'')) ?b =
      json_error 503 (js ''Unable to connect to moderation service. Please try again.'')"
    by (simp only: if_True)
next
  let ?b = "Obj [(js ''text'', Str (js ''hello''))]"
  have f: "trim (js ''hello'') \<noteq> []" "length (js ''hello'') \<le> 5000" "js ''hf_token'' \<noteq> []"
    by (simp_all add: js_def trim_def is_space_def)
  have "\<not> nullish ?b \<and> get_prop ?b (js ''text'') = Str (js ''hello'') \<and> trim (js ''hello'') \<noteq> [] \<and>
    length (js ''hello'') \<le> 5000 \<and> js ''hf_token'' \<noteq> [] \<and>
    connect (stub_upstream (Inr (Obj []))) (js ''hf_token'') = None \<and>
    predict (stub_upstream (Inr (Obj []))) (js ''hello'')
      (if get_prop ?b (js ''safer'') = Undefined then Num (decimal 1 10)
       else get_prop ?b (js ''safer'')) = Inr (Obj []) \<and>
    \<not> nullish (Obj []) \<and> \<not> truthy (second (get_prop (Obj []) (js ''data'')))"
    using f by (simp add: stub_upstream_def)
  from error_classification [THEN conjunct2, THEN mp, OF this]
  show "moderate (stub_runtime Null) (stub_upstream (Inr (Obj [])))
      (Some (js ''hf_token'')) ?b =
      json_error 500 (js ''Failed to analyze message. Please try again.'')" .
qed

end
